theory Spec2Isabelle
  imports Main
begin

section \<open>The k-way merge iterator of table/merge\_iterator.go\<close>

text \<open>
  The Go file defines a binary tournament tree over values of the interface
  \<open>y.Iterator\<close>. A \<open>MergeIterator\<close> holds two \<open>node\<close>s, each caching the validity
  and the key of one child iterator, and the pointer \<open>second\<close> to the child that loses
  a tie. Everything the Go code does beyond returning a value is explicit here:

  \<^item> a runtime panic is the left injection of a sum, \<open>panic + 'a\<close>;
  \<^item> the objects a \<open>MergeIterator\<close> points to live in its own store \<open>heap\<close>; the
    pointers \<open>small.iter\<close>, \<open>big.iter\<close> and \<open>second\<close> are addresses into that store,
    address \<open>0\<close> being the nil interface value, so that \<open>mi.second == mi.small.iter\<close>
    is a comparison of addresses and \<open>mi.second.Next()\<close> moves the very object a node
    wraps. A \<open>MergeIterator\<close> owns its children (the comment on the type in the source),
    so one object is never held by two stores;
  \<^item> the loop of \<open>MergeIterator.fix\<close> may not return for a child that never becomes invalid, so
    every operation that reaches it takes fuel and returns \<open>None\<close> when the fuel is
    spent.
\<close>

subsection \<open>Panics and results\<close>

datatype panic = NilPointerDereference | Panic string

type_synonym 'a result = "panic + 'a"

definition bindR :: "'a result option \<Rightarrow> ('a \<Rightarrow> 'b result option) \<Rightarrow> 'b result option" where
  "bindR x f = (case x of None \<Rightarrow> None | Some (Inl p) \<Rightarrow> Some (Inl p) | Some (Inr a) \<Rightarrow> f a)"

definition returnR :: "'a \<Rightarrow> 'a result option" where
  "returnR a = Some (Inr a)"

definition liftR :: "'a result \<Rightarrow> 'a result option" where
  "liftR r = Some r"

subsection \<open>Keys and the comparator\<close>

text \<open>
  Modelled from the spec: \<open>y.CompareKeys\<close> (package y, not part of this file) is a total
  order over encoded keys. Keys are the elements of a linearly ordered type; a key
  slice is \<open>'k option\<close>, \<open>None\<close> being the nil slice (the zero value of \<open>node.key\<close>),
  which sorts before every key.
\<close>

fun CompareKeys :: "('k::linorder) option \<Rightarrow> 'k option \<Rightarrow> int" where
  "CompareKeys None None = 0"
| "CompareKeys None (Some b) = -1"
| "CompareKeys (Some a) None = 1"
| "CompareKeys (Some a) (Some b) = (if a < b then -1 else if a = b then 0 else 1)"

subsection \<open>Leaf sources\<close>

text \<open>
  Modelled from the spec: the Iterator Capability contract of an external sorted
  source (\<open>y.Iterator\<close> as implemented by a table or a memtable iterator, not part of
  this file). A source is the list of its entries in its own traversal order and a
  cursor; \<open>descending\<close> is its configured direction, used by \<open>Seek\<close> only; \<open>closeErr\<close>
  is what its \<open>Close\<close> returns and \<open>closes\<close> counts the calls of \<open>Close\<close>.
\<close>

record ('k, 'v) source =
  entries :: "('k \<times> 'v) list"
  pos :: nat
  descending :: bool
  closeErr :: "string option"
  closes :: nat

definition source_Valid :: "('k, 'v) source \<Rightarrow> bool" where
  "source_Valid s = (pos s < length (entries s))"

definition source_Key :: "('k, 'v) source \<Rightarrow> 'k option" where
  "source_Key s = (if source_Valid s then Some (fst (entries s ! pos s)) else None)"

definition source_Value :: "('k, 'v) source \<Rightarrow> 'v option" where
  "source_Value s = (if source_Valid s then Some (snd (entries s ! pos s)) else None)"

definition source_Next :: "('k, 'v) source \<Rightarrow> ('k, 'v) source" where
  "source_Next s = s\<lparr>pos := Suc (pos s)\<rparr>"

definition source_Rewind :: "('k, 'v) source \<Rightarrow> ('k, 'v) source" where
  "source_Rewind s = s\<lparr>pos := 0\<rparr>"

definition source_Seek :: "('k::linorder) \<Rightarrow> ('k, 'v) source \<Rightarrow> ('k, 'v) source" where
  "source_Seek k s =
     s\<lparr>pos := length (takeWhile (\<lambda>e. if descending s then k < fst e else fst e < k) (entries s))\<rparr>"

definition source_Close :: "('k, 'v) source \<Rightarrow> string option \<times> ('k, 'v) source" where
  "source_Close s = (closeErr s, s\<lparr>closes := Suc (closes s)\<rparr>)"

subsection \<open>Nodes, merge iterators and the interface\<close>

text \<open>
  \<open>node.iter\<close> is an address into the store of the enclosing \<open>MergeIterator\<close>. The
  fields \<open>node.merge\<close> and \<open>node.concat\<close> are the type assertions of \<open>iter\<close> that
  \<open>setIterator\<close> stores; the model reads the dynamic type of the object at \<open>iter\<close>
  instead.
\<close>

record 'k node =
  valid :: bool
  key :: "'k option"
  iter :: nat

text \<open>
  A value of the interface \<open>y.Iterator\<close>: nil, a leaf source, a \<open>ConcatIterator\<close> or a
  \<open>MergeIterator\<close>. Modelled from the spec: \<open>ConcatIterator\<close> (table/iterator.go, not
  part of this file) is an Iterator Capability instance over a concatenation of sorted
  tables; the merge logic calls only its \<open>Valid\<close>, \<open>Key\<close> and \<open>Next\<close> directly, and it is
  modelled as a source.
\<close>

datatype ('k, 'v) Iterator =
    Nil
  | Leaf "('k, 'v) source"
  | Concat "('k, 'v) source"
  | Merge "('k, 'v) MergeIterator"
and ('k, 'v) MergeIterator =
    MergeIterator (small: "'k node") (big: "'k node") (second: nat) (reverse: bool)
      (heap: "('k, 'v) Iterator list")

definition deref :: "('k, 'v) Iterator list \<Rightarrow> nat \<Rightarrow> ('k, 'v) Iterator" where
  "deref h a = (if a = 0 \<or> length h < a then Nil else h ! (a - 1))"

definition store :: "('k, 'v) Iterator list \<Rightarrow> nat \<Rightarrow> ('k, 'v) Iterator \<Rightarrow> ('k, 'v) Iterator list" where
  "store h a obj = (if a = 0 \<or> length h < a then h else h[a - 1 := obj])"

definition set_small :: "'k node \<Rightarrow> ('k, 'v) MergeIterator \<Rightarrow> ('k, 'v) MergeIterator" where
  "set_small n mi = MergeIterator n (big mi) (second mi) (reverse mi) (heap mi)"

definition set_big :: "'k node \<Rightarrow> ('k, 'v) MergeIterator \<Rightarrow> ('k, 'v) MergeIterator" where
  "set_big n mi = MergeIterator (small mi) n (second mi) (reverse mi) (heap mi)"

definition set_heap :: "('k, 'v) Iterator list \<Rightarrow> ('k, 'v) MergeIterator \<Rightarrow> ('k, 'v) MergeIterator" where
  "set_heap h mi = MergeIterator (small mi) (big mi) (second mi) (reverse mi) h"

text \<open>\<open>MergeIterator.Valid\<close> and \<open>MergeIterator.Key\<close> read the cache of \<open>small\<close>.\<close>

definition MergeIterator_Valid :: "('k, 'v) MergeIterator \<Rightarrow> bool" where
  "MergeIterator_Valid mi = valid (small mi)"

definition MergeIterator_Key :: "('k, 'v) MergeIterator \<Rightarrow> 'k option" where
  "MergeIterator_Key mi = key (small mi)"

text \<open>A call through the interface panics on nil and dispatches on the dynamic type.\<close>

fun iter_Valid :: "('k, 'v) Iterator \<Rightarrow> bool result" where
  "iter_Valid Nil = Inl NilPointerDereference"
| "iter_Valid (Leaf s) = Inr (source_Valid s)"
| "iter_Valid (Concat c) = Inr (source_Valid c)"
| "iter_Valid (Merge mi) = Inr (MergeIterator_Valid mi)"

fun iter_Key :: "('k, 'v) Iterator \<Rightarrow> 'k option result" where
  "iter_Key Nil = Inl NilPointerDereference"
| "iter_Key (Leaf s) = Inr (source_Key s)"
| "iter_Key (Concat c) = Inr (source_Key c)"
| "iter_Key (Merge mi) = Inr (MergeIterator_Key mi)"

text \<open>
  \<open>node.setKey\<close>: the two fast paths read a nested \<open>MergeIterator\<close>'s \<open>small\<close> node and a
  \<open>ConcatIterator\<close>'s own accessors; the last branch goes through the interface.
\<close>

definition node_setKey :: "'k node \<Rightarrow> ('k, 'v) Iterator list \<Rightarrow> 'k node result" where
  "node_setKey n h =
     (case deref h (iter n) of
        Merge mi \<Rightarrow>
          (let n1 = n\<lparr>valid := valid (small mi)\<rparr>
           in Inr (if valid n1 then n1\<lparr>key := key (small mi)\<rparr> else n1))
      | Concat c \<Rightarrow>
          (let n1 = n\<lparr>valid := source_Valid c\<rparr>
           in Inr (if valid n1 then n1\<lparr>key := source_Key c\<rparr> else n1))
      | obj \<Rightarrow>
          (case iter_Valid obj of
             Inl p \<Rightarrow> Inl p
           | Inr v \<Rightarrow>
               (let n1 = n\<lparr>valid := v\<rparr>
                in if valid n1
                   then (case iter_Key obj of Inl p \<Rightarrow> Inl p | Inr k \<Rightarrow> Inr (n1\<lparr>key := k\<rparr>))
                   else Inr n1)))"

definition MergeIterator_swap :: "('k, 'v) MergeIterator \<Rightarrow> ('k, 'v) MergeIterator" where
  "MergeIterator_swap mi = MergeIterator (big mi) (small mi) (second mi) (reverse mi) (heap mi)"

text \<open>
  The if-chain of \<open>fix\<close> that follows \<open>mi.second.Next()\<close>: refresh the node that wraps
  \<open>second\<close> and report its validity as \<open>secondValid\<close>, or panic when neither node
  wraps it.
\<close>

definition refresh_second :: "('k, 'v) MergeIterator \<Rightarrow> (('k, 'v) MergeIterator \<times> bool) result" where
  "refresh_second mi =
     (if second mi = iter (small mi) then
        (case node_setKey (small mi) (heap mi) of
           Inl p \<Rightarrow> Inl p
         | Inr s \<Rightarrow> Inr (set_small s mi, valid s))
      else if second mi = iter (big mi) then
        (case node_setKey (big mi) (heap mi) of
           Inl p \<Rightarrow> Inl p
         | Inr b \<Rightarrow> Inr (set_big b mi, valid b))
      else Inl (Panic ''mi.second invalid''))"

subsection \<open>Next and fix\<close>

text \<open>
  \<open>iter_Next\<close> is \<open>Next\<close> called through the interface, \<open>node_next\<close> is \<open>node.next\<close> on a
  node of a \<open>MergeIterator\<close> whose store is \<open>h\<close> (it returns the node and the store),
  \<open>fix\<close> is \<open>MergeIterator.fix\<close> and \<open>fix_loop\<close> the \<open>for mi.small.valid\<close> loop in it.
  Fuel is spent on entering \<open>MergeIterator.Next\<close> and on every iteration of the loop.
\<close>

fun iter_Next :: "nat \<Rightarrow> ('k::linorder, 'v) Iterator \<Rightarrow> ('k, 'v) Iterator result option"
and MergeIterator_Next :: "nat \<Rightarrow> ('k, 'v) MergeIterator \<Rightarrow> ('k, 'v) MergeIterator result option"
and node_next :: "nat \<Rightarrow> 'k node \<Rightarrow> ('k, 'v) Iterator list \<Rightarrow> ('k node \<times> ('k, 'v) Iterator list) result option"
and MergeIterator_fix :: "nat \<Rightarrow> ('k, 'v) MergeIterator \<Rightarrow> ('k, 'v) MergeIterator result option"
and fix_loop :: "nat \<Rightarrow> ('k, 'v) MergeIterator \<Rightarrow> ('k, 'v) MergeIterator result option"
where
  "iter_Next n Nil = Some (Inl NilPointerDereference)"
| "iter_Next n (Leaf s) = Some (Inr (Leaf (source_Next s)))"
| "iter_Next n (Concat c) = Some (Inr (Concat (source_Next c)))"
| "iter_Next n (Merge mi) = bindR (MergeIterator_Next n mi) (\<lambda>mi'. returnR (Merge mi'))"
| "MergeIterator_Next 0 mi = None"
| "MergeIterator_Next (Suc n) mi =
     bindR (node_next n (small mi) (heap mi))
       (\<lambda>(s, h). MergeIterator_fix n (set_heap h (set_small s mi)))"
| "node_next n nd h =
     bindR (case deref h (iter nd) of
              Merge mi \<Rightarrow> bindR (MergeIterator_Next n mi) (\<lambda>mi'. returnR (Merge mi'))
            | Concat c \<Rightarrow> returnR (Concat (source_Next c))
            | obj \<Rightarrow> iter_Next n obj)
       (\<lambda>obj'. let h' = store h (iter nd) obj'
               in bindR (liftR (node_setKey nd h')) (\<lambda>nd'. returnR (nd', h')))"
| "MergeIterator_fix n mi = (if \<not> valid (big mi) then returnR mi else fix_loop n mi)"
| "fix_loop 0 mi = None"
| "fix_loop (Suc n) mi =
     (if valid (small mi) then
        (let cmp = CompareKeys (key (small mi)) (key (big mi)) in
         if cmp = 0 then
           bindR (iter_Next n (deref (heap mi) (second mi)))
             (\<lambda>obj'.
                let mi1 = set_heap (store (heap mi) (second mi) obj') mi in
                bindR (liftR (refresh_second mi1))
                  (\<lambda>(mi2, secondValid).
                     if \<not> secondValid then
                       (if second mi2 = iter (small mi2) \<and> valid (big mi2)
                        then returnR (MergeIterator_swap mi2) else returnR mi2)
                     else fix_loop n mi2))
         else if reverse mi then (if cmp < 0 then returnR (MergeIterator_swap mi) else returnR mi)
         else (if cmp > 0 then returnR (MergeIterator_swap mi) else returnR mi))
      else returnR (MergeIterator_swap mi))"

subsection \<open>Rewind and Seek\<close>

text \<open>
  \<open>node.rewind\<close> and \<open>node.seek\<close> always call through the interface; \<open>MergeIterator.Rewind\<close>
  and \<open>MergeIterator.Seek\<close> reposition \<open>small\<close>, then \<open>big\<close>, then run \<open>fix\<close>.
\<close>

fun iter_Rewind :: "nat \<Rightarrow> ('k::linorder, 'v) Iterator \<Rightarrow> ('k, 'v) Iterator result option"
and MergeIterator_Rewind :: "nat \<Rightarrow> ('k, 'v) MergeIterator \<Rightarrow> ('k, 'v) MergeIterator result option"
and node_rewind :: "nat \<Rightarrow> 'k node \<Rightarrow> ('k, 'v) Iterator list \<Rightarrow> ('k node \<times> ('k, 'v) Iterator list) result option"
where
  "iter_Rewind n Nil = Some (Inl NilPointerDereference)"
| "iter_Rewind n (Leaf s) = Some (Inr (Leaf (source_Rewind s)))"
| "iter_Rewind n (Concat c) = Some (Inr (Concat (source_Rewind c)))"
| "iter_Rewind n (Merge mi) = bindR (MergeIterator_Rewind n mi) (\<lambda>mi'. returnR (Merge mi'))"
| "MergeIterator_Rewind 0 mi = None"
| "MergeIterator_Rewind (Suc n) mi =
     bindR (node_rewind n (small mi) (heap mi))
       (\<lambda>(s, h). bindR (node_rewind n (big mi) h)
          (\<lambda>(b, h'). MergeIterator_fix n (set_heap h' (set_big b (set_small s mi)))))"
| "node_rewind n nd h =
     bindR (iter_Rewind n (deref h (iter nd)))
       (\<lambda>obj'. let h' = store h (iter nd) obj'
               in bindR (liftR (node_setKey nd h')) (\<lambda>nd'. returnR (nd', h')))"

fun iter_Seek :: "nat \<Rightarrow> 'k \<Rightarrow> ('k::linorder, 'v) Iterator \<Rightarrow> ('k, 'v) Iterator result option"
and MergeIterator_Seek :: "nat \<Rightarrow> 'k \<Rightarrow> ('k, 'v) MergeIterator \<Rightarrow> ('k, 'v) MergeIterator result option"
and node_seek :: "nat \<Rightarrow> 'k \<Rightarrow> 'k node \<Rightarrow> ('k, 'v) Iterator list \<Rightarrow> ('k node \<times> ('k, 'v) Iterator list) result option"
where
  "iter_Seek n k Nil = Some (Inl NilPointerDereference)"
| "iter_Seek n k (Leaf s) = Some (Inr (Leaf (source_Seek k s)))"
| "iter_Seek n k (Concat c) = Some (Inr (Concat (source_Seek k c)))"
| "iter_Seek n k (Merge mi) = bindR (MergeIterator_Seek n k mi) (\<lambda>mi'. returnR (Merge mi'))"
| "MergeIterator_Seek 0 k mi = None"
| "MergeIterator_Seek (Suc n) k mi =
     bindR (node_seek n k (small mi) (heap mi))
       (\<lambda>(s, h). bindR (node_seek n k (big mi) h)
          (\<lambda>(b, h'). MergeIterator_fix n (set_heap h' (set_big b (set_small s mi)))))"
| "node_seek n k nd h =
     bindR (iter_Seek n k (deref h (iter nd)))
       (\<lambda>obj'. let h' = store h (iter nd) obj'
               in bindR (liftR (node_setKey nd h')) (\<lambda>nd'. returnR (nd', h')))"

subsection \<open>Value and Close\<close>

text \<open>\<open>MergeIterator.Value\<close> is \<open>mi.small.iter.Value()\<close>.\<close>

definition Iterator_measure :: "('k, 'v) Iterator \<Rightarrow> nat" where
  "Iterator_measure it = (case it of Nil \<Rightarrow> 0 | _ \<Rightarrow> size it)"

lemma Iterator_measure_deref: "Iterator_measure (deref h a) \<le> size_list size h"
proof (cases "a = 0 \<or> length h < a")
  case True
  then show ?thesis by (simp add: deref_def Iterator_measure_def)
next
  case False
  then have "a - 1 < length h" by arith
  then have "h ! (a - 1) \<in> set h" by (rule nth_mem)
  then have "size (h ! (a - 1)) \<le> size_list size h" by (rule size_list_estimation') simp
  moreover have "Iterator_measure (h ! (a - 1)) \<le> size (h ! (a - 1))"
    by (simp add: Iterator_measure_def split: Iterator.splits)
  ultimately show ?thesis using False by (simp add: deref_def)
qed

function iter_Value :: "('k, 'v) Iterator \<Rightarrow> 'v option result"
and MergeIterator_Value :: "('k, 'v) MergeIterator \<Rightarrow> 'v option result"
where
  "iter_Value Nil = Inl NilPointerDereference"
| "iter_Value (Leaf s) = Inr (source_Value s)"
| "iter_Value (Concat c) = Inr (source_Value c)"
| "iter_Value (Merge mi) = MergeIterator_Value mi"
| "MergeIterator_Value mi = iter_Value (deref (heap mi) (iter (small mi)))"
  by pat_completeness auto
termination
proof (relation "measure (\<lambda>x. case x of Inl it \<Rightarrow> Iterator_measure it | Inr mi \<Rightarrow> size mi)")
  fix mi :: "('k, 'v) MergeIterator"
  show "(Inr mi, Inl (Merge mi)) \<in> measure (\<lambda>x. case x of Inl it \<Rightarrow> Iterator_measure it | Inr mi \<Rightarrow> size mi)"
    by (simp add: Iterator_measure_def)
  have "Iterator_measure (deref (heap mi) (iter (small mi))) \<le> size_list size (heap mi)"
    by (rule Iterator_measure_deref)
  moreover have "size_list size (heap mi) < size mi" by (cases mi) simp
  ultimately show "(Inl (deref (heap mi) (iter (small mi))), Inr mi) \<in> measure (\<lambda>x. case x of Inl it \<Rightarrow> Iterator_measure it | Inr mi \<Rightarrow> size mi)"
    by simp
qed simp

text \<open>
  \<open>errors.Wrap\<close> of github.com/pkg/errors returns nil for a nil error and otherwise the
  error annotated with the message.
\<close>

fun errors_Wrap :: "string option \<Rightarrow> string \<Rightarrow> string option" where
  "errors_Wrap None msg = None"
| "errors_Wrap (Some e) msg = Some (msg @ '': '' @ e)"

text \<open>
  \<open>MergeIterator.Close\<close> closes the object of \<open>small\<close>, then the object of \<open>big\<close>, and
  wraps the first error that is not nil. The recursion descends one level of the tree
  for each unit of fuel.
\<close>

fun iter_Close :: "nat \<Rightarrow> ('k, 'v) Iterator \<Rightarrow> (string option \<times> ('k, 'v) Iterator) result option"
and MergeIterator_Close :: "nat \<Rightarrow> ('k, 'v) MergeIterator \<Rightarrow> (string option \<times> ('k, 'v) MergeIterator) result option"
where
  "iter_Close n Nil = Some (Inl NilPointerDereference)"
| "iter_Close n (Leaf s) = returnR (fst (source_Close s), Leaf (snd (source_Close s)))"
| "iter_Close n (Concat c) = returnR (fst (source_Close c), Concat (snd (source_Close c)))"
| "iter_Close n (Merge mi) = bindR (MergeIterator_Close n mi) (\<lambda>(e, mi'). returnR (e, Merge mi'))"
| "MergeIterator_Close 0 mi = None"
| "MergeIterator_Close (Suc n) mi =
     bindR (iter_Close n (deref (heap mi) (iter (small mi))))
       (\<lambda>(err1, o1).
          let h1 = store (heap mi) (iter (small mi)) o1 in
          bindR (iter_Close n (deref h1 (iter (big mi))))
            (\<lambda>(err2, o2).
               let h2 = store h1 (iter (big mi)) o2 in
               if err1 \<noteq> None then returnR (errors_Wrap err1 ''MergeIterator'', set_heap h2 mi)
               else returnR (errors_Wrap err2 ''MergeIterator'', set_heap h2 mi)))"

subsection \<open>NewMergeIterator\<close>

text \<open>
  The interface value that \<open>setIterator\<close> and \<open>second\<close> receive for the object placed at
  address \<open>a\<close> of the new store: nil when the object is nil.
\<close>

definition addr_of :: "nat \<Rightarrow> ('k, 'v) Iterator \<Rightarrow> nat" where
  "addr_of a obj = (case obj of Nil \<Rightarrow> 0 | _ \<Rightarrow> a)"

definition zero_node :: "'k node" where
  "zero_node = \<lparr>valid = False, key = None, iter = 0\<rparr>"

definition setIterator :: "'k node \<Rightarrow> nat \<Rightarrow> 'k node" where
  "setIterator n a = n\<lparr>iter := a\<rparr>"

function NewMergeIterator :: "('k, 'v) Iterator list \<Rightarrow> bool \<Rightarrow> ('k, 'v) Iterator" where
  "NewMergeIterator iters rv =
     (if length iters = 0 then Nil
      else if length iters = 1 then iters ! 0
      else if length iters = 2 then
        Merge (MergeIterator
                 (setIterator zero_node (addr_of 1 (iters ! 0)))
                 (setIterator zero_node (addr_of 2 (iters ! 1)))
                 (addr_of 2 (iters ! 1)) rv [iters ! 0, iters ! 1])
      else
        (let mid = length iters div 2 in
         NewMergeIterator
           [NewMergeIterator (take mid iters) rv, NewMergeIterator (drop mid iters) rv] rv))"
  by pat_completeness auto
termination
proof (relation "measure (\<lambda>(iters, rv). length iters)")
  fix iters :: "('k, 'v) Iterator list" and mid :: nat
  assume "length iters \<noteq> 0" "length iters \<noteq> 1" "length iters \<noteq> 2" "mid = length iters div 2"
  then have "2 < length iters \<and> 0 < mid \<and> mid < length iters" by arith
  then show "\<And>rv. ((take mid iters, rv), (iters, rv)) \<in> measure (\<lambda>(iters, rv). length iters)"
    and "\<And>rv. ((drop mid iters, rv), (iters, rv)) \<in> measure (\<lambda>(iters, rv). length iters)"
    and "\<And>rv. (([NewMergeIterator (take mid iters) rv, NewMergeIterator (drop mid iters) rv], rv), (iters, rv))
           \<in> measure (\<lambda>(iters, rv). length iters)"
    by auto
qed simp

subsection \<open>The traversal of a driver\<close>

text \<open>
  A full traversal as the spec describes it: \<open>Rewind\<close>, then, while \<open>Valid\<close>, read \<open>Key\<close>
  and \<open>Value\<close> and call \<open>Next\<close>.
\<close>

fun collect :: "nat \<Rightarrow> ('k::linorder, 'v) Iterator \<Rightarrow> ('k option \<times> 'v option) list result option" where
  "collect 0 it = None"
| "collect (Suc n) it =
     bindR (liftR (iter_Valid it))
       (\<lambda>v. if \<not> v then returnR []
            else bindR (liftR (iter_Key it))
              (\<lambda>k. bindR (liftR (iter_Value it))
                 (\<lambda>x. bindR (iter_Next n it)
                    (\<lambda>it'. bindR (collect n it') (\<lambda>r. returnR ((k, x) # r))))))"

definition traverse :: "nat \<Rightarrow> ('k::linorder, 'v) Iterator list \<Rightarrow> bool \<Rightarrow> ('k option \<times> 'v option) list result option" where
  "traverse n iters rv = bindR (iter_Rewind n (NewMergeIterator iters rv)) (collect n)"

subsection \<open>The generic path of a node\<close>

text \<open>
  The same two operations of a node with every call made through the interface
  (\<open>iter.Valid()\<close>, \<open>iter.Key()\<close>, \<open>iter.Next()\<close>), as the spec describes the path that
  the fast paths of \<open>node.setKey\<close> and \<open>node.next\<close> replace.
\<close>

definition node_setKey_generic :: "'k node \<Rightarrow> ('k, 'v) Iterator list \<Rightarrow> 'k node result" where
  "node_setKey_generic n h =
     (case iter_Valid (deref h (iter n)) of
        Inl p \<Rightarrow> Inl p
      | Inr v \<Rightarrow>
          (let n1 = n\<lparr>valid := v\<rparr>
           in if valid n1
              then (case iter_Key (deref h (iter n)) of Inl p \<Rightarrow> Inl p | Inr k \<Rightarrow> Inr (n1\<lparr>key := k\<rparr>))
              else Inr n1))"

definition node_next_generic :: "nat \<Rightarrow> ('k::linorder) node \<Rightarrow> ('k, 'v) Iterator list \<Rightarrow> ('k node \<times> ('k, 'v) Iterator list) result option" where
  "node_next_generic n nd h =
     bindR (iter_Next n (deref h (iter nd)))
       (\<lambda>obj'. let h' = store h (iter nd) obj'
               in bindR (liftR (node_setKey_generic nd h')) (\<lambda>nd'. returnR (nd', h')))"

subsection \<open>Invariant I1\<close>

definition I1 :: "('k::linorder, 'v) MergeIterator \<Rightarrow> bool" where
  "I1 mi =
     (valid (small mi) \<and> valid (big mi) \<longrightarrow>
        (if reverse mi then 0 \<le> CompareKeys (key (small mi)) (key (big mi))
         else CompareKeys (key (small mi)) (key (big mi)) \<le> 0))"

definition I1_strict :: "('k::linorder, 'v) MergeIterator \<Rightarrow> bool" where
  "I1_strict mi =
     (valid (small mi) \<and> valid (big mi) \<longrightarrow>
        (if reverse mi then 0 < CompareKeys (key (small mi)) (key (big mi))
         else CompareKeys (key (small mi)) (key (big mi)) < 0))"

subsection \<open>Streams, well-formed trees and positioned trees\<close>

text \<open>
  The notions the statements below are written in. \<open>merge_streams\<close> is the two-way
  merge of two entry lists in which, on equal keys, the entry of the second list is
  dropped. \<open>remaining\<close> is what a tree still has to yield from the cursors of its
  leaves, \<open>all_entries\<close> what it yields from the start. \<open>wf_iter\<close> describes the trees
  that \<open>NewMergeIterator\<close> builds: two children at the addresses 1 and 2, the second
  one designated \<open>second\<close>, and each node wrapping one of them. \<open>positioned\<close> holds
  after \<open>Rewind\<close>, \<open>Seek\<close> and \<open>Next\<close>: at every level both caches agree with the
  children and the two nodes are in strict order with \<open>small\<close> leading; \<open>fix_ready\<close> is
  the state in which \<open>fix\<close> is called, where the caches agree with the children but the
  order of the nodes is not settled yet.
\<close>

definition before :: "bool \<Rightarrow> ('k::linorder) \<Rightarrow> 'k \<Rightarrow> bool" where
  "before rv a b = (if rv then b < a else a < b)"

fun merge_streams :: "bool \<Rightarrow> ('k::linorder \<times> 'v) list \<Rightarrow> ('k \<times> 'v) list \<Rightarrow> ('k \<times> 'v) list" where
  "merge_streams rv [] ys = ys"
| "merge_streams rv (x # xs) [] = x # xs"
| "merge_streams rv (x # xs) (y # ys) =
     (if fst x = fst y then merge_streams rv (x # xs) ys
      else if before rv (fst x) (fst y) then x # merge_streams rv xs (y # ys)
      else y # merge_streams rv (x # xs) ys)"

lemma Iterator_measure_child: "Iterator_measure (deref (heap mi) a) < Iterator_measure (Merge mi)"
proof -
  have "Iterator_measure (deref (heap mi) a) \<le> size_list size (heap mi)"
    by (rule Iterator_measure_deref)
  moreover have "size_list size (heap mi) < size mi" by (cases mi) simp
  ultimately show ?thesis by (simp add: Iterator_measure_def)
qed

function remaining :: "('k::linorder, 'v) Iterator \<Rightarrow> ('k \<times> 'v) list" where
  "remaining Nil = []"
| "remaining (Leaf s) = drop (pos s) (entries s)"
| "remaining (Concat c) = drop (pos c) (entries c)"
| "remaining (Merge mi) =
     merge_streams (reverse mi) (remaining (deref (heap mi) 1)) (remaining (deref (heap mi) 2))"
  by pat_completeness auto
termination
  by (relation "measure Iterator_measure") (simp_all add: Iterator_measure_child)

function all_entries :: "('k::linorder, 'v) Iterator \<Rightarrow> ('k \<times> 'v) list" where
  "all_entries Nil = []"
| "all_entries (Leaf s) = entries s"
| "all_entries (Concat c) = entries c"
| "all_entries (Merge mi) =
     merge_streams (reverse mi) (all_entries (deref (heap mi) 1)) (all_entries (deref (heap mi) 2))"
  by pat_completeness auto
termination
  by (relation "measure Iterator_measure") (simp_all add: Iterator_measure_child)

function wf_iter :: "('k, 'v) Iterator \<Rightarrow> bool" where
  "wf_iter Nil = False"
| "wf_iter (Leaf s) = True"
| "wf_iter (Concat c) = True"
| "wf_iter (Merge mi) =
     (length (heap mi) = 2 \<and> second mi = 2 \<and>
      (iter (small mi) = 1 \<and> iter (big mi) = 2 \<or> iter (small mi) = 2 \<and> iter (big mi) = 1) \<and>
      wf_iter (deref (heap mi) 1) \<and> wf_iter (deref (heap mi) 2))"
  by pat_completeness auto
termination
  by (relation "measure Iterator_measure") (simp_all add: Iterator_measure_child)

definition coherent :: "('k::linorder) node \<Rightarrow> ('k, 'v) Iterator \<Rightarrow> bool" where
  "coherent nd obj =
     (valid nd = (remaining obj \<noteq> []) \<and>
      (valid nd \<longrightarrow> key nd = Some (fst (hd (remaining obj)))))"

function positioned :: "('k::linorder, 'v) Iterator \<Rightarrow> bool" where
  "positioned Nil = False"
| "positioned (Leaf s) = True"
| "positioned (Concat c) = True"
| "positioned (Merge mi) =
     (positioned (deref (heap mi) 1) \<and> positioned (deref (heap mi) 2) \<and>
      coherent (small mi) (deref (heap mi) (iter (small mi))) \<and>
      coherent (big mi) (deref (heap mi) (iter (big mi))) \<and>
      (valid (big mi) \<longrightarrow> valid (small mi)) \<and> I1_strict mi)"
  by pat_completeness auto
termination
  by (relation "measure Iterator_measure") (simp_all add: Iterator_measure_child)

definition fix_ready :: "('k::linorder, 'v) MergeIterator \<Rightarrow> bool" where
  "fix_ready mi =
     (wf_iter (Merge mi) \<and>
      positioned (deref (heap mi) 1) \<and> positioned (deref (heap mi) 2) \<and>
      coherent (small mi) (deref (heap mi) (iter (small mi))) \<and>
      coherent (big mi) (deref (heap mi) (iter (big mi))))"



text \<open>
  \<open>next_ok c\<close>: with enough fuel \<open>Next\<close> on \<open>c\<close> returns a tree of the same shape,
  well-formed and positioned, that has the rest of the stream of \<open>c\<close> still to yield.
\<close>

definition next_ok :: "('k::linorder, 'v) Iterator \<Rightarrow> bool" where
  "next_ok c =
     (\<exists>N c'. (\<forall>n\<ge>N. iter_Next n c = Some (Inr c')) \<and> wf_iter c' \<and> positioned c' \<and>
              size c' = size c \<and> remaining c' = tl (remaining c))"


text \<open>An entry as the driver reads it through \<open>Key\<close> and \<open>Value\<close>.\<close>

definition wrap :: "'k \<times> 'v \<Rightarrow> 'k option \<times> 'v option" where
  "wrap e = (Some (fst e), Some (snd e))"


text \<open>
  Order by the comparator in the direction of the traversal: \<open>key_le\<close> is
  non-decreasing in forward mode and non-increasing in reverse mode, \<open>key_lt\<close> is the
  strict order. \<open>first_value k ess\<close> is the value of \<open>k\<close> in the first list of \<open>ess\<close>
  that has the key.
\<close>

definition key_le :: "bool \<Rightarrow> ('k::linorder) option \<Rightarrow> 'k option \<Rightarrow> bool" where
  "key_le rv a b = (if rv then 0 \<le> CompareKeys a b else CompareKeys a b \<le> 0)"

definition key_lt :: "bool \<Rightarrow> ('k::linorder) option \<Rightarrow> 'k option \<Rightarrow> bool" where
  "key_lt rv a b = (if rv then 0 < CompareKeys a b else CompareKeys a b < 0)"

definition source_sorted :: "bool \<Rightarrow> ('k::linorder, 'v) source \<Rightarrow> bool" where
  "source_sorted rv s = sorted_wrt (\<lambda>a b. key_le rv (Some a) (Some b)) (map fst (entries s))"

definition source_strictly_sorted :: "bool \<Rightarrow> ('k::linorder, 'v) source \<Rightarrow> bool" where
  "source_strictly_sorted rv s = sorted_wrt (\<lambda>a b. key_lt rv (Some a) (Some b)) (map fst (entries s))"

fun first_value :: "'k \<Rightarrow> ('k \<times> 'v) list list \<Rightarrow> 'v option" where
  "first_value k [] = None"
| "first_value k (es # rest) = (case map_of es k of Some v \<Rightarrow> Some v | None \<Rightarrow> first_value k rest)"


text \<open>
  \<open>advances k c\<close>: a call of \<open>Next\<close> on the iterator \<open>c\<close> returns, and the iterator
  it returns is invalid when \<open>k = 0\<close> and otherwise is valid and \<open>advances (k - 1)\<close>
  in turn. So every call of \<open>Next\<close> moves \<open>c\<close> one position on, and \<open>k\<close> is the
  number of positions that remain after the next one before \<open>c\<close> is invalid.
\<close>

inductive advances :: "nat \<Rightarrow> ('k::linorder, 'v) Iterator \<Rightarrow> bool" where
  last_call: "iter_Next n c = Some (Inr c') \<Longrightarrow> iter_Valid c' = Inr False \<Longrightarrow> advances 0 c"
| next_call: "iter_Next n c = Some (Inr c') \<Longrightarrow> iter_Valid c' = Inr True \<Longrightarrow> advances k c' \<Longrightarrow>
         advances (Suc k) c"

text \<open>\<open>Next_times j c c'\<close>: \<open>c'\<close> is the iterator \<open>c\<close> after \<open>j\<close> calls of \<open>Next\<close>.\<close>

inductive Next_times :: "nat \<Rightarrow> ('k::linorder, 'v) Iterator \<Rightarrow> ('k, 'v) Iterator \<Rightarrow> bool" where
  no_call: "Next_times 0 c c"
| one_more: "iter_Next n c = Some (Inr c1) \<Longrightarrow> Next_times j c1 c' \<Longrightarrow> Next_times (Suc j) c c'"

text \<open>
  \<open>advanced_to mi c' mi'\<close>: \<open>mi'\<close> is \<open>mi\<close> with the object \<open>c'\<close> at the address
  \<open>second\<close> and every other object of the store as it was, with the same \<open>second\<close> and
  \<open>reverse\<close> and the same two node iterators, in either order. The caches of the nodes
  are left open.
\<close>

definition advanced_to :: "('k, 'v) MergeIterator \<Rightarrow> ('k, 'v) Iterator \<Rightarrow> ('k, 'v) MergeIterator \<Rightarrow> bool" where
  "advanced_to mi c' mi' =
     (heap mi' = store (heap mi) (second mi) c' \<and> second mi' = second mi \<and> reverse mi' = reverse mi \<and>
      (iter (small mi') = iter (small mi) \<and> iter (big mi') = iter (big mi) \<or>
       iter (small mi') = iter (big mi) \<and> iter (big mi') = iter (small mi)))"


subsection \<open>Examples\<close>

text \<open>
  The sources of the spec's example, \<open>A = {a, b, d}\<close> and \<open>B = {b, c}\<close>, with the keys
  \<open>a\<close> to \<open>e\<close> written 1 to 5 and each value naming its source, and two more sources
  that hold the key \<open>b\<close>. \<open>example_tie\<close> is a \<open>MergeIterator\<close> over \<open>A\<close> and \<open>B\<close> whose
  nodes both stand on \<open>b\<close>; in \<open>example_foreign\<close> its \<open>second\<close> points to a third
  iterator that neither node wraps; \<open>example_rewound\<close> is \<open>example_tie\<close> after \<open>Rewind\<close>.
  \<open>example_rA\<close> and \<open>example_rB\<close> are the sources of the spec's example in reverse mode.
\<close>

definition example_A :: "(nat, string) source" where
  "example_A = \<lparr>entries = [(1, ''A''), (2, ''A''), (4, ''A'')], pos = 0, descending = False,
                 closeErr = None, closes = 0\<rparr>"

definition example_B :: "(nat, string) source" where
  "example_B = \<lparr>entries = [(2, ''B''), (3, ''B'')], pos = 0, descending = False,
                 closeErr = Some ''B: close failed'', closes = 0\<rparr>"

definition example_C :: "(nat, string) source" where
  "example_C = \<lparr>entries = [(2, ''C'')], pos = 0, descending = False,
                 closeErr = None, closes = 0\<rparr>"

definition example_D :: "(nat, string) source" where
  "example_D = \<lparr>entries = [(2, ''D''), (5, ''D'')], pos = 0, descending = False,
                 closeErr = None, closes = 0\<rparr>"

definition example_tie :: "(nat, string) MergeIterator" where
  "example_tie =
     MergeIterator \<lparr>valid = True, key = Some 2, iter = 1\<rparr> \<lparr>valid = True, key = Some 2, iter = 2\<rparr>
       2 False [Leaf (example_A\<lparr>pos := 1\<rparr>), Leaf example_B]"

definition example_foreign :: "(nat, string) MergeIterator" where
  "example_foreign =
     MergeIterator \<lparr>valid = True, key = Some 2, iter = 1\<rparr> \<lparr>valid = True, key = Some 2, iter = 2\<rparr>
       3 False [Leaf (example_A\<lparr>pos := 1\<rparr>), Leaf example_B, Leaf example_C]"


definition example_rA :: "(nat, string) source" where
  "example_rA = \<lparr>entries = [(4, ''A''), (2, ''A''), (1, ''A'')], pos = 0, descending = True,
                  closeErr = None, closes = 0\<rparr>"

definition example_rB :: "(nat, string) source" where
  "example_rB = \<lparr>entries = [(3, ''B''), (2, ''B'')], pos = 0, descending = True,
                  closeErr = None, closes = 0\<rparr>"

definition example_rewound :: "(nat, string) MergeIterator" where
  "example_rewound =
     MergeIterator \<lparr>valid = True, key = Some 1, iter = 1\<rparr> \<lparr>valid = True, key = Some 2, iter = 2\<rparr>
       2 False [Leaf example_A, Leaf example_B]"

text \<open>
  \<open>le_res a b\<close>: the result \<open>b\<close> of a run with more fuel extends the result \<open>a\<close>: either
  \<open>a\<close> ran out of fuel or the two are the same.
\<close>

definition le_res :: "'a option \<Rightarrow> 'a option \<Rightarrow> bool" where
  "le_res a b = (a = None \<or> a = b)"


section \<open>Basic facts\<close>

declare NewMergeIterator.simps [simp del]
declare node_next.simps [simp del] MergeIterator_fix.simps [simp del]
declare node_rewind.simps [simp del] node_seek.simps [simp del]

lemma bindR_None [simp]: "bindR None f = None"
  and bindR_Inl [simp]: "bindR (Some (Inl p)) f = Some (Inl p)"
  and bindR_Inr [simp]: "bindR (Some (Inr a)) f = f a"
  and bindR_returnR [simp]: "bindR (returnR a) f = f a"
  by (simp_all add: bindR_def returnR_def)

lemma bindR_eq_Inr: "(bindR x f = Some (Inr y)) = (\<exists>a. x = Some (Inr a) \<and> f a = Some (Inr y))"
  by (auto simp: bindR_def split: option.splits sum.splits)

lemma returnR_eq [simp]: "(returnR a = Some (Inr b)) = (a = b)" "returnR a \<noteq> None" "returnR a \<noteq> Some (Inl p)"
  by (simp_all add: returnR_def)

lemma liftR_eq [simp]: "(liftR r = Some q) = (r = q)" "liftR r \<noteq> None"
  by (simp_all add: liftR_def)

lemma set_sel [simp]:
  "small (set_small n mi) = n" "big (set_small n mi) = big mi" "second (set_small n mi) = second mi"
  "reverse (set_small n mi) = reverse mi" "heap (set_small n mi) = heap mi"
  "small (set_big n mi) = small mi" "big (set_big n mi) = n" "second (set_big n mi) = second mi"
  "reverse (set_big n mi) = reverse mi" "heap (set_big n mi) = heap mi"
  "small (set_heap h mi) = small mi" "big (set_heap h mi) = big mi" "second (set_heap h mi) = second mi"
  "reverse (set_heap h mi) = reverse mi" "heap (set_heap h mi) = h"
  "small (MergeIterator_swap mi) = big mi" "big (MergeIterator_swap mi) = small mi"
  "second (MergeIterator_swap mi) = second mi" "reverse (MergeIterator_swap mi) = reverse mi"
  "heap (MergeIterator_swap mi) = heap mi"
  by (simp_all add: set_small_def set_big_def set_heap_def MergeIterator_swap_def)

lemma NewMergeIterator_0: "NewMergeIterator [] rv = Nil"
  by (subst NewMergeIterator.simps) simp

lemma NewMergeIterator_1: "NewMergeIterator [a] rv = a"
  by (subst NewMergeIterator.simps) simp

lemma NewMergeIterator_2:
  "NewMergeIterator [a, b] rv =
     Merge (MergeIterator (setIterator zero_node (addr_of 1 a)) (setIterator zero_node (addr_of 2 b))
              (addr_of 2 b) rv [a, b])"
  by (subst NewMergeIterator.simps) simp

lemma NewMergeIterator_many:
  "2 < length iters \<Longrightarrow>
   NewMergeIterator iters rv =
     NewMergeIterator [NewMergeIterator (take (length iters div 2) iters) rv,
                       NewMergeIterator (drop (length iters div 2) iters) rv] rv"
  by (subst NewMergeIterator.simps) (auto simp: Let_def)

lemma deref_addr_of [simp]:
  "deref [a, b] (addr_of (Suc 0) a) = a" "deref [a, b] (addr_of 2 b) = b"
  by (cases a; simp add: deref_def addr_of_def) (cases b; simp add: deref_def addr_of_def)

section \<open>The tree builder\<close>

text \<open>
  C9: for exactly two iterators \<open>NewMergeIterator\<close> builds one \<open>MergeIterator\<close> whose
  \<open>small\<close> wraps \<open>iters[0]\<close>, whose \<open>big\<close> wraps \<open>iters[1]\<close> and whose \<open>second\<close> is
  \<open>iters[1]\<close>, with no \<open>fix\<close> run (both caches are the zero value). For more than two
  iterators it splits the list at \<open>len(iters) / 2\<close>, builds the left half \<open>[0, mid)\<close> and
  the right half \<open>[mid, n)\<close> recursively and combines them in the same way: \<open>small\<close>
  wraps the left result, \<open>big\<close> wraps the right result and \<open>second\<close> is the right result.
\<close>

theorem NewMergeIterator_shape:
  "(length iters = 2 \<longrightarrow>
      (\<exists>mi. NewMergeIterator iters rv = Merge mi \<and>
            small mi = \<lparr>valid = False, key = None, iter = addr_of 1 (iters ! 0)\<rparr> \<and>
            big mi = \<lparr>valid = False, key = None, iter = addr_of 2 (iters ! 1)\<rparr> \<and>
            second mi = iter (big mi) \<and> reverse mi = rv \<and> heap mi = [iters ! 0, iters ! 1] \<and>
            deref (heap mi) (iter (small mi)) = iters ! 0 \<and>
            deref (heap mi) (iter (big mi)) = iters ! 1 \<and>
            deref (heap mi) (second mi) = iters ! 1)) \<and>
   (2 < length iters \<longrightarrow>
      (\<exists>mi. NewMergeIterator iters rv = Merge mi \<and>
            deref (heap mi) (iter (small mi)) = NewMergeIterator (take (length iters div 2) iters) rv \<and>
            deref (heap mi) (iter (big mi)) = NewMergeIterator (drop (length iters div 2) iters) rv \<and>
            deref (heap mi) (second mi) = NewMergeIterator (drop (length iters div 2) iters) rv \<and>
            second mi = iter (big mi) \<and> reverse mi = rv \<and>
            valid (small mi) = False \<and> valid (big mi) = False \<and>
            heap mi = [NewMergeIterator (take (length iters div 2) iters) rv,
                       NewMergeIterator (drop (length iters div 2) iters) rv]))"
proof (intro conjI impI)
  assume "length iters = 2"
  then obtain a b where ab: "iters = [a, b]"
    by (cases iters; cases "tl iters"; cases "tl (tl iters)") auto
  show "\<exists>mi. NewMergeIterator iters rv = Merge mi \<and>
            small mi = \<lparr>valid = False, key = None, iter = addr_of 1 (iters ! 0)\<rparr> \<and>
            big mi = \<lparr>valid = False, key = None, iter = addr_of 2 (iters ! 1)\<rparr> \<and>
            second mi = iter (big mi) \<and> reverse mi = rv \<and> heap mi = [iters ! 0, iters ! 1] \<and>
            deref (heap mi) (iter (small mi)) = iters ! 0 \<and>
            deref (heap mi) (iter (big mi)) = iters ! 1 \<and>
            deref (heap mi) (second mi) = iters ! 1"
    unfolding ab by (simp add: NewMergeIterator_2 setIterator_def zero_node_def)
next
  assume "2 < length iters"
  then show "\<exists>mi. NewMergeIterator iters rv = Merge mi \<and>
            deref (heap mi) (iter (small mi)) = NewMergeIterator (take (length iters div 2) iters) rv \<and>
            deref (heap mi) (iter (big mi)) = NewMergeIterator (drop (length iters div 2) iters) rv \<and>
            deref (heap mi) (second mi) = NewMergeIterator (drop (length iters div 2) iters) rv \<and>
            second mi = iter (big mi) \<and> reverse mi = rv \<and>
            valid (small mi) = False \<and> valid (big mi) = False \<and>
            heap mi = [NewMergeIterator (take (length iters div 2) iters) rv,
                       NewMergeIterator (drop (length iters div 2) iters) rv]"
    by (simp add: NewMergeIterator_many NewMergeIterator_2 setIterator_def zero_node_def)
qed

text \<open>
  C4: for an empty list \<open>NewMergeIterator\<close> returns the nil interface value, not an
  iterator that answers \<open>Valid()\<close> with false: \<open>Valid()\<close> on the result is a nil
  dereference, and so is \<open>Close()\<close>.
\<close>

theorem NewMergeIterator_empty_counterexample:
  "iter_Valid (NewMergeIterator ([] :: (nat, nat) Iterator list) False) \<noteq> Inr False"
  by (simp add: NewMergeIterator_0)

text \<open>
  C4, as the code has it: \<open>NewMergeIterator\<close> on an empty list returns nil, and every
  call through the interface on that result, \<open>Valid\<close> and \<open>Close\<close> included, panics
  with a nil dereference.
\<close>

theorem NewMergeIterator_empty:
  "NewMergeIterator [] rv = Nil \<and>
   iter_Valid (NewMergeIterator [] rv) = Inl NilPointerDereference \<and>
   iter_Close n (NewMergeIterator [] rv) = Some (Inl NilPointerDereference)"
  by (simp add: NewMergeIterator_0)

section \<open>The fast paths of a node\<close>

lemma node_setKey_eq_generic: "node_setKey nd h = node_setKey_generic nd h"
  by (cases "deref h (iter nd)")
    (simp_all add: node_setKey_def node_setKey_generic_def MergeIterator_Valid_def MergeIterator_Key_def Let_def)

lemma node_next_eq_generic: "node_next n nd h = node_next_generic n nd h"
  by (cases "deref h (iter nd)") (simp_all add: node_next.simps node_next_generic_def node_setKey_eq_generic)

text \<open>
  C8: for every node and every child, \<open>node.setKey\<close> with its fast paths computes the
  same \<open>valid\<close> flag and key as the calls through the interface, and \<open>node.next\<close>
  advances the child to the same position and leaves the same node and store, for
  every amount of fuel.
\<close>

theorem fast_path_is_generic_path:
  "node_setKey nd h = node_setKey_generic nd h \<and> node_next n nd h = node_next_generic n nd h"
  by (simp add: node_setKey_eq_generic node_next_eq_generic)

section \<open>What fix guarantees in every state\<close>

lemma CompareKeys_less_iff: "(CompareKeys a b < 0) = (0 < CompareKeys b a)"
  by (cases a; cases b) auto

lemma CompareKeys_eq_iff: "(CompareKeys a b = 0) = (a = b)"
  by (cases a; cases b) auto

lemma node_setKey_panic: "node_setKey nd h = Inl p \<Longrightarrow> p = NilPointerDereference"
  by (cases "deref h (iter nd)")
    (auto simp: node_setKey_def Let_def split: if_splits)

lemma refresh_second_Inr:
  assumes "refresh_second mi = Inr (mi2, sv)"
  shows "reverse mi2 = reverse mi" and "second mi2 = second mi"
    and "\<not> sv \<Longrightarrow> \<not> valid (small mi2) \<or> \<not> valid (big mi2)"
  using assms by (auto simp: refresh_second_def split: if_splits sum.splits)

lemma fix_loop_strict:
  "fix_loop n mi = Some (Inr mi') \<Longrightarrow> I1_strict mi' \<and> reverse mi' = reverse mi"
proof (induction n arbitrary: mi)
  case 0
  then show ?case by simp
next
  case (Suc n)
  show ?case
  proof (cases "valid (small mi)")
    case False
    with Suc.prems have "mi' = MergeIterator_swap mi" by simp
    with False show ?thesis by (simp add: I1_strict_def)
  next
    case vs: True
    show ?thesis
    proof (cases "CompareKeys (key (small mi)) (key (big mi)) = 0")
      case False
      have "(CompareKeys (key (small mi)) (key (big mi)) < 0) = (0 < CompareKeys (key (big mi)) (key (small mi)))"
        and "(CompareKeys (key (big mi)) (key (small mi)) < 0) = (0 < CompareKeys (key (small mi)) (key (big mi)))"
        by (rule CompareKeys_less_iff)+
      with False vs Suc.prems show ?thesis
        by (auto simp: Let_def I1_strict_def split: if_splits)
    next
      case True
      with vs Suc.prems obtain obj' mi2 sv where
        r: "refresh_second (set_heap (store (heap mi) (second mi) obj') mi) = Inr (mi2, sv)"
        and k: "(if \<not> sv then (if second mi2 = iter (small mi2) \<and> valid (big mi2)
                   then returnR (MergeIterator_swap mi2) else returnR mi2)
                 else fix_loop n mi2) = Some (Inr mi')"
        by (auto simp: Let_def bindR_eq_Inr)
      from refresh_second_Inr [OF r] have rv: "reverse mi2 = reverse mi"
        and inv: "\<not> sv \<Longrightarrow> \<not> valid (small mi2) \<or> \<not> valid (big mi2)" by simp_all
      show ?thesis
      proof (cases sv)
        case True
        with k have "fix_loop n mi2 = Some (Inr mi')" by simp
        from Suc.IH [OF this] rv show ?thesis by simp
      next
        case False
        with k inv rv show ?thesis by (auto simp: I1_strict_def split: if_splits)
      qed
    qed
  qed
qed

lemma fix_strict:
  "MergeIterator_fix n mi = Some (Inr mi') \<Longrightarrow> I1_strict mi' \<and> reverse mi' = reverse mi"
proof (cases "valid (big mi)")
  case True
  then show "MergeIterator_fix n mi = Some (Inr mi') \<Longrightarrow> ?thesis"
    by (simp add: MergeIterator_fix.simps fix_loop_strict)
next
  case False
  then show "MergeIterator_fix n mi = Some (Inr mi') \<Longrightarrow> ?thesis"
    by (auto simp: MergeIterator_fix.simps I1_strict_def)
qed

lemma I1_strict_I1: "I1_strict mi \<Longrightarrow> I1 mi"
  by (auto simp: I1_strict_def I1_def split: if_splits)

text \<open>
  C10: whenever \<open>fix\<close> returns with both \<open>small.valid\<close> and \<open>big.valid\<close> true, the
  order of the two cached keys is strict, below zero in forward mode and above zero in
  reverse mode, and the keys differ.
\<close>

theorem fix_returns_strict_order:
  "MergeIterator_fix n mi = Some (Inr mi') \<Longrightarrow> valid (small mi') \<Longrightarrow> valid (big mi') \<Longrightarrow>
   (if reverse mi then 0 < CompareKeys (key (small mi')) (key (big mi'))
    else CompareKeys (key (small mi')) (key (big mi')) < 0) \<and>
   key (small mi') \<noteq> key (big mi')"
  using fix_strict [of n mi mi'] by (auto simp: I1_strict_def CompareKeys_eq_iff [symmetric] split: if_splits)

lemma Next_I1: "MergeIterator_Next n mi = Some (Inr mi') \<Longrightarrow> I1 mi'"
  by (cases n) (auto simp: bindR_eq_Inr dest!: fix_strict intro: I1_strict_I1)

lemma Rewind_I1: "MergeIterator_Rewind n mi = Some (Inr mi') \<Longrightarrow> I1 mi'"
  by (cases n) (auto simp: bindR_eq_Inr dest!: fix_strict intro: I1_strict_I1)

lemma Seek_I1: "MergeIterator_Seek n k mi = Some (Inr mi') \<Longrightarrow> I1 mi'"
  by (cases n) (auto simp: bindR_eq_Inr dest!: fix_strict intro: I1_strict_I1)

section \<open>The if-chain after the call of Next on second\<close>

lemma second_mismatch_chain:
  "(second mi \<noteq> iter (small mi) \<and> second mi \<noteq> iter (big mi) \<longrightarrow>
      refresh_second mi = Inl (Panic ''mi.second invalid'')) \<and>
   (second mi = iter (small mi) \<or> second mi = iter (big mi) \<longrightarrow>
      (\<forall>msg. refresh_second mi \<noteq> Inl (Panic msg))) \<and>
   (valid (small mi) \<and> valid (big mi) \<and> CompareKeys (key (small mi)) (key (big mi)) = 0 \<and>
    second mi \<noteq> iter (small mi) \<and> second mi \<noteq> iter (big mi) \<longrightarrow>
      MergeIterator_fix (Suc n) mi =
        bindR (iter_Next n (deref (heap mi) (second mi)))
          (\<lambda>obj'. Some (Inl (Panic ''mi.second invalid''))) \<and>
      (\<forall>m mi'. MergeIterator_fix m mi \<noteq> Some (Inr mi')))"
proof (intro conjI impI allI)
  assume "second mi \<noteq> iter (small mi) \<and> second mi \<noteq> iter (big mi)"
  then show "refresh_second mi = Inl (Panic ''mi.second invalid'')"
    by (simp add: refresh_second_def)
next
  fix msg
  assume "second mi = iter (small mi) \<or> second mi = iter (big mi)"
  then show "refresh_second mi \<noteq> Inl (Panic msg)"
    by (auto simp: refresh_second_def split: sum.splits dest: node_setKey_panic)
next
  assume a: "valid (small mi) \<and> valid (big mi) \<and> CompareKeys (key (small mi)) (key (big mi)) = 0 \<and>
    second mi \<noteq> iter (small mi) \<and> second mi \<noteq> iter (big mi)"
  have r: "refresh_second (set_heap h mi) = Inl (Panic ''mi.second invalid'')" for h
    using a by (simp add: refresh_second_def)
  show eq: "MergeIterator_fix (Suc n) mi =
        bindR (iter_Next n (deref (heap mi) (second mi)))
          (\<lambda>obj'. Some (Inl (Panic ''mi.second invalid'')))" for n
    using a by (simp add: MergeIterator_fix.simps Let_def r liftR_def)
  fix m mi'
  show "MergeIterator_fix m mi \<noteq> Some (Inr mi')"
  proof (cases m)
    case 0
    with a show ?thesis by (simp add: MergeIterator_fix.simps)
  next
    case (Suc k)
    show ?thesis unfolding Suc eq by (simp add: bindR_eq_Inr)
  qed
qed

section \<open>Close\<close>

text \<open>
  C5: \<open>Close\<close> closes the object of \<open>small\<close> and then the object of \<open>big\<close>, whatever
  error the first close returned, and the error it returns is not nil exactly when one
  of the two closes returned an error that is not nil.
\<close>

theorem Close_closes_both_children:
  assumes "iter_Close n (deref (heap mi) (iter (small mi))) = Some (Inr (err1, o1))"
    and "iter_Close n (deref (store (heap mi) (iter (small mi)) o1) (iter (big mi))) = Some (Inr (err2, o2))"
  shows "\<exists>err. MergeIterator_Close (Suc n) mi =
           Some (Inr (err, set_heap (store (store (heap mi) (iter (small mi)) o1) (iter (big mi)) o2) mi)) \<and>
         (err \<noteq> None) = (err1 \<noteq> None \<or> err2 \<noteq> None)"
  using assms by (cases err1; cases err2) (simp_all add: Let_def returnR_def)

section \<open>Positioned trees\<close>

lemma deref_pair [simp]:
  "deref [a, b] (Suc 0) = a" "deref [a, b] 2 = b" "deref h 0 = Nil"
  by (simp_all add: deref_def)

lemma store_pair [simp]:
  "store [a, b] (Suc 0) c = [c, b]" "store [a, b] 2 c = [a, c]"
  by (simp_all add: store_def)

lemma merge_streams_Nil2 [simp]: "merge_streams rv xs [] = xs"
  by (cases xs) simp_all

lemma merge_streams_eq_Nil [simp]: "(merge_streams rv xs ys = []) = (xs = [] \<and> ys = [])"
  by (induction rv xs ys rule: merge_streams.induct) auto

lemma before_irrefl [simp]: "\<not> before rv a a"
  by (simp add: before_def)

lemma before_asym: "before rv a b \<Longrightarrow> \<not> before rv b a"
  by (auto simp: before_def)

lemma merge_streams_first:
  "xs \<noteq> [] \<Longrightarrow> (ys \<noteq> [] \<Longrightarrow> before rv (fst (hd xs)) (fst (hd ys))) \<Longrightarrow>
   merge_streams rv xs ys = hd xs # merge_streams rv (tl xs) ys"
  by (cases xs; cases ys) auto

lemma merge_streams_second:
  "ys \<noteq> [] \<Longrightarrow> (xs \<noteq> [] \<Longrightarrow> before rv (fst (hd ys)) (fst (hd xs))) \<Longrightarrow>
   merge_streams rv xs ys = hd ys # merge_streams rv xs (tl ys)"
  by (cases xs; cases ys) (auto dest: before_asym)

lemma merge_streams_tie:
  "xs \<noteq> [] \<Longrightarrow> ys \<noteq> [] \<Longrightarrow> fst (hd xs) = fst (hd ys) \<Longrightarrow>
   merge_streams rv xs ys = merge_streams rv xs (tl ys)"
  by (cases xs; cases ys) auto

lemma I1_strict_before:
  "I1_strict mi \<Longrightarrow> valid (small mi) \<Longrightarrow> valid (big mi) \<Longrightarrow>
   key (small mi) = Some a \<Longrightarrow> key (big mi) = Some b \<Longrightarrow> before (reverse mi) a b"
  by (auto simp: I1_strict_def before_def split: if_splits)

lemma wf_iter_MergeE:
  assumes "wf_iter (Merge mi)"
  obtains s b r c1 c2 where "mi = MergeIterator s b 2 r [c1, c2]" "wf_iter c1" "wf_iter c2"
    "iter s = Suc 0 \<and> iter b = 2 \<or> iter s = 2 \<and> iter b = Suc 0"
proof -
  obtain s b sec r h where mi: "mi = MergeIterator s b sec r h" by (cases mi)
  from assms mi have "length h = 2" by simp
  then obtain c1 c2 where h: "h = [c1, c2]"
    by (cases h; cases "tl h"; cases "tl (tl h)") auto
  from assms mi h have "sec = 2" "wf_iter c1" "wf_iter c2"
    "iter s = Suc 0 \<and> iter b = 2 \<or> iter s = 2 \<and> iter b = Suc 0" by auto
  with mi h show thesis by (intro that [of s b r c1 c2]) auto
qed

lemma positioned_head:
  assumes "wf_iter it" "positioned it"
  shows "iter_Valid it = Inr (remaining it \<noteq> []) \<and>
    (remaining it \<noteq> [] \<longrightarrow> iter_Key it = Inr (Some (fst (hd (remaining it)))) \<and>
       iter_Value it = Inr (Some (snd (hd (remaining it)))))"
  using assms
proof (induction it rule: wf_iter.induct)
  case 1
  then show ?case by simp
next
  case (2 s)
  show ?case
    by (auto simp: source_Valid_def source_Key_def source_Value_def hd_drop_conv_nth)
next
  case (3 c)
  show ?case
    by (auto simp: source_Valid_def source_Key_def source_Value_def hd_drop_conv_nth)
next
  case (4 mi)
  from \<open>wf_iter (Merge mi)\<close> obtain s b r c1 c2 where mi: "mi = MergeIterator s b 2 r [c1, c2]"
    and wf: "wf_iter c1" "wf_iter c2"
    and refs: "iter s = Suc 0 \<and> iter b = 2 \<or> iter s = 2 \<and> iter b = Suc 0"
    by (rule wf_iter_MergeE)
  from \<open>positioned (Merge mi)\<close> have p: "positioned c1" "positioned c2"
    and cs: "coherent s (deref [c1, c2] (iter s))" and cb: "coherent b (deref [c1, c2] (iter b))"
    and vb: "valid b \<Longrightarrow> valid s" and st: "I1_strict mi"
    by (simp_all add: mi)
  from "4.IH" wf p have
    ih1: "remaining c1 \<noteq> [] \<Longrightarrow> iter_Value c1 = Inr (Some (snd (hd (remaining c1))))"
    and ih2: "remaining c2 \<noteq> [] \<Longrightarrow> iter_Value c2 = Inr (Some (snd (hd (remaining c2))))"
    by (simp_all add: mi)
  from refs show ?case
  proof
    assume r: "iter s = Suc 0 \<and> iter b = 2"
    with cs cb have c: "coherent s c1" "coherent b c2" by simp_all
    have bf: "remaining c2 \<noteq> [] \<Longrightarrow> before r (fst (hd (remaining c1))) (fst (hd (remaining c2)))"
      using I1_strict_before [OF st] c vb by (simp add: mi coherent_def)
    have ne: "remaining c2 \<noteq> [] \<Longrightarrow> remaining c1 \<noteq> []"
      using c vb by (simp add: coherent_def)
    have "remaining c1 \<noteq> [] \<Longrightarrow>
        merge_streams r (remaining c1) (remaining c2) = hd (remaining c1) # merge_streams r (tl (remaining c1)) (remaining c2)"
      using merge_streams_first [of "remaining c1" "remaining c2" r] bf by blast
    with c ne r ih1 show ?thesis
      by (auto simp: mi coherent_def MergeIterator_Valid_def MergeIterator_Key_def)
  next
    assume r: "iter s = 2 \<and> iter b = Suc 0"
    with cs cb have c: "coherent s c2" "coherent b c1" by simp_all
    have bf: "remaining c1 \<noteq> [] \<Longrightarrow> before r (fst (hd (remaining c2))) (fst (hd (remaining c1)))"
      using I1_strict_before [OF st] c vb by (simp add: mi coherent_def)
    have ne: "remaining c1 \<noteq> [] \<Longrightarrow> remaining c2 \<noteq> []"
      using c vb by (simp add: coherent_def)
    have "remaining c2 \<noteq> [] \<Longrightarrow>
        merge_streams r (remaining c1) (remaining c2) = hd (remaining c2) # merge_streams r (remaining c1) (tl (remaining c2))"
      using merge_streams_second [of "remaining c2" "remaining c1" r] bf by blast
    with c ne r ih2 show ?thesis
      by (auto simp: mi coherent_def MergeIterator_Valid_def MergeIterator_Key_def)
  qed
qed

section \<open>Next on a positioned tree\<close>

lemma bindR_liftR [simp]:
  "bindR (liftR (Inr a)) f = f a" "bindR (liftR (Inl p)) f = Some (Inl p)"
  by (simp_all add: liftR_def)

lemma all_ge_Suc: "(\<And>m. N \<le> m \<Longrightarrow> P (Suc m)) \<Longrightarrow> \<forall>n\<ge>Suc N. P n"
  by (metis Suc_le_D Suc_le_mono)

lemma node_setKey_ok:
  assumes "wf_iter obj" "positioned obj" "deref h (iter nd) = obj"
  shows "\<exists>nd'. node_setKey nd h = Inr nd' \<and> iter nd' = iter nd \<and> coherent nd' obj"
proof -
  from positioned_head [OF assms(1,2)]
  have v: "iter_Valid obj = Inr (remaining obj \<noteq> [])"
    and k: "remaining obj \<noteq> [] \<Longrightarrow> iter_Key obj = Inr (Some (fst (hd (remaining obj))))"
    by simp_all
  show ?thesis
  proof (cases "remaining obj = []")
    case True
    with v assms(3) show ?thesis
      by (simp add: node_setKey_eq_generic node_setKey_generic_def coherent_def)
  next
    case False
    with v k assms(3) show ?thesis
      by (simp add: node_setKey_eq_generic node_setKey_generic_def coherent_def)
  qed
qed

lemma fix_loop_tie_step:
  "valid (small mi) \<Longrightarrow> key (small mi) = key (big mi) \<Longrightarrow>
   iter_Next n (deref (heap mi) (second mi)) = Some (Inr obj') \<Longrightarrow>
   refresh_second (set_heap (store (heap mi) (second mi) obj') mi) = Inr (mi2, sv) \<Longrightarrow>
   fix_loop (Suc n) mi =
     (if \<not> sv then (if second mi2 = iter (small mi2) \<and> valid (big mi2)
                    then returnR (MergeIterator_swap mi2) else returnR mi2)
      else fix_loop n mi2)"
  by (simp add: Let_def CompareKeys_eq_iff)

lemma fix_loop_exhausted:
  "\<not> valid (small mi) \<Longrightarrow> fix_loop (Suc n) mi = Some (Inr (MergeIterator_swap mi))"
  by (simp add: returnR_def)

lemma fix_loop_unequal:
  "valid (small mi) \<Longrightarrow> key (small mi) \<noteq> key (big mi) \<Longrightarrow>
   \<exists>mi'. (mi' = mi \<or> mi' = MergeIterator_swap mi) \<and> (\<forall>n. fix_loop (Suc n) mi = Some (Inr mi'))"
  by (simp add: Let_def CompareKeys_eq_iff returnR_def)


lemma fix_loop_ok:
  assumes H: "\<And>c :: ('k::linorder, 'v) Iterator.
      size c = S \<Longrightarrow> wf_iter c \<Longrightarrow> positioned c \<Longrightarrow> remaining c \<noteq> [] \<Longrightarrow> next_ok c"
  shows "fix_ready (mi :: ('k, 'v) MergeIterator) \<Longrightarrow> valid (big mi) \<Longrightarrow> size (deref (heap mi) 2) = S \<Longrightarrow>
     \<exists>N mi'. (\<forall>n\<ge>N. fix_loop n mi = Some (Inr mi')) \<and> wf_iter (Merge mi') \<and>
        positioned (Merge mi') \<and> size mi' = size mi \<and> remaining (Merge mi') = remaining (Merge mi)"
proof (induction "length (remaining (deref (heap mi) 2))" arbitrary: mi rule: less_induct)
  case less
  from less.prems(1) have wfm: "wf_iter (Merge mi)" by (simp add: fix_ready_def)
  then obtain s b r c1 c2 where mi: "mi = MergeIterator s b 2 r [c1, c2]"
    and wf: "wf_iter c1" "wf_iter c2"
    and refs: "iter s = Suc 0 \<and> iter b = 2 \<or> iter s = 2 \<and> iter b = Suc 0"
    by (rule wf_iter_MergeE)
  from less.prems(1) have p: "positioned c1" "positioned c2"
    and cs: "coherent s (deref [c1, c2] (iter s))" and cb: "coherent b (deref [c1, c2] (iter b))"
    by (simp_all add: fix_ready_def mi)
  from less.prems(2) have vb: "valid b" by (simp add: mi)
  from less.prems(3) have S: "size c2 = S" by (simp add: mi)
  show ?case
  proof (cases "valid s")
    case False
    have "\<forall>n\<ge>Suc 0. fix_loop n mi = Some (Inr (MergeIterator_swap mi))"
      by (rule all_ge_Suc) (simp add: fix_loop_exhausted mi False)
    moreover have "wf_iter (Merge (MergeIterator_swap mi))"
      using wf refs by (auto simp: mi MergeIterator_swap_def)
    moreover have "positioned (Merge (MergeIterator_swap mi))"
      using p cs cb False by (simp add: mi MergeIterator_swap_def I1_strict_def)
    moreover have "size (MergeIterator_swap mi) = size mi"
      by (simp add: mi MergeIterator_swap_def)
    moreover have "remaining (Merge (MergeIterator_swap mi)) = remaining (Merge mi)" by simp
    ultimately show ?thesis by blast
  next
    case vs: True
    show ?thesis
    proof (cases "key s = key b")
      case False
      with vs obtain mi' where m': "mi' = mi \<or> mi' = MergeIterator_swap mi"
        and run: "\<forall>n. fix_loop (Suc n) mi = Some (Inr mi')"
        using fix_loop_unequal [of mi] by (auto simp: mi)
      from run have "fix_loop (Suc 0) mi = Some (Inr mi')" by blast
      then have st: "I1_strict mi'" by (rule fix_loop_strict [THEN conjunct1])
      have "\<forall>n\<ge>Suc 0. fix_loop n mi = Some (Inr mi')"
        using run by (intro all_ge_Suc) blast
      moreover have "wf_iter (Merge mi')"
        using m' wf refs by (auto simp: mi MergeIterator_swap_def)
      moreover have "positioned (Merge mi')"
        using m' p cs cb vs vb st by (auto simp: mi MergeIterator_swap_def)
      moreover have "size mi' = size mi"
        using m' by (auto simp: mi MergeIterator_swap_def)
      moreover have "remaining (Merge mi') = remaining (Merge mi)"
        using m' by auto
      ultimately show ?thesis by blast
    next
      case tie: True
      from refs show ?thesis
      proof
        assume r: "iter s = Suc 0 \<and> iter b = 2"
        with cs cb have c: "coherent s c1" "coherent b c2" by simp_all
        from c vs vb have ne: "remaining c1 \<noteq> []" "remaining c2 \<noteq> []"
          by (simp_all add: coherent_def)
        from c vs vb tie ne have hk: "fst (hd (remaining c1)) = fst (hd (remaining c2))"
          by (simp add: coherent_def)
        from H [OF S wf(2) p(2) ne(2)] obtain N1 c2' where
          nx: "\<forall>n\<ge>N1. iter_Next n c2 = Some (Inr c2')" and wf2: "wf_iter c2'"
          and p2: "positioned c2'" and sz: "size c2' = size c2"
          and rem: "remaining c2' = tl (remaining c2)"
          by (auto simp: next_ok_def)
        from node_setKey_ok [OF wf2 p2, of "[c1, c2']" b] r obtain b' where
          sk: "node_setKey b [c1, c2'] = Inr b'" and ib: "iter b' = 2" and cb': "coherent b' c2'"
          by auto
        define mi2 where "mi2 = MergeIterator s b' 2 r [c1, c2']"
        have rs: "refresh_second (set_heap (store (heap mi) (second mi) c2') mi) = Inr (mi2, valid b')"
          using r sk by (simp add: mi refresh_second_def set_heap_def set_big_def mi2_def)
        have step: "fix_loop (Suc n) mi =
            (if \<not> valid b' then (if second mi2 = iter (small mi2) \<and> valid (big mi2)
                                 then returnR (MergeIterator_swap mi2) else returnR mi2)
             else fix_loop n mi2)" if "N1 \<le> n" for n
          using fix_loop_tie_step [OF _ _ _ rs, of n] nx vs tie that by (simp add: mi)
        have wfm2: "wf_iter (Merge mi2)" using wf wf2 r ib by (simp add: mi2_def)
        have fr2: "fix_ready mi2"
          using wfm2 p p2 c cb' r ib by (simp add: fix_ready_def mi2_def)
        have rm2: "remaining (Merge mi2) = remaining (Merge mi)"
          using merge_streams_tie [OF ne hk] rem by (simp add: mi mi2_def)
        have sz2: "size mi2 = size mi" using sz by (simp add: mi mi2_def)
        show ?thesis
        proof (cases "valid b'")
          case False
          have "\<forall>n\<ge>Suc N1. fix_loop n mi = Some (Inr mi2)"
            using step r False by (intro all_ge_Suc) (simp del: fix_loop.simps add: mi2_def returnR_def)
          moreover have "positioned (Merge mi2)"
            using p p2 c cb' r ib False by (simp add: mi2_def I1_strict_def)
          ultimately show ?thesis using wfm2 rm2 sz2 by blast
        next
          case True
          have "length (remaining (deref (heap mi2) 2)) < length (remaining (deref (heap mi) 2))"
            using rem ne by (simp add: mi mi2_def)
          from less.hyps [OF this fr2] True sz S obtain N2 mi' where
            run: "\<forall>n\<ge>N2. fix_loop n mi2 = Some (Inr mi')"
            and res: "wf_iter (Merge mi')" "positioned (Merge mi')" "size mi' = size mi2"
              "remaining (Merge mi') = remaining (Merge mi2)"
            by (auto simp: mi2_def)
          have "\<forall>n\<ge>Suc (max N1 N2). fix_loop n mi = Some (Inr mi')"
            using step run True by (intro all_ge_Suc) (simp del: fix_loop.simps)
          moreover have "size mi' = size mi" using res(3) sz2 by simp
          moreover have "remaining (Merge mi') = remaining (Merge mi)"
            using res(4) rm2 by (simp del: remaining.simps)
          ultimately show ?thesis using res(1,2) by blast
        qed
      next
        assume r: "iter s = 2 \<and> iter b = Suc 0"
        with cs cb have c: "coherent s c2" "coherent b c1" by simp_all
        from c vs vb have ne: "remaining c1 \<noteq> []" "remaining c2 \<noteq> []"
          by (simp_all add: coherent_def)
        from c vs vb tie ne have hk: "fst (hd (remaining c1)) = fst (hd (remaining c2))"
          by (simp add: coherent_def)
        from H [OF S wf(2) p(2) ne(2)] obtain N1 c2' where
          nx: "\<forall>n\<ge>N1. iter_Next n c2 = Some (Inr c2')" and wf2: "wf_iter c2'"
          and p2: "positioned c2'" and sz: "size c2' = size c2"
          and rem: "remaining c2' = tl (remaining c2)"
          by (auto simp: next_ok_def)
        from node_setKey_ok [OF wf2 p2, of "[c1, c2']" s] r obtain s' where
          sk: "node_setKey s [c1, c2'] = Inr s'" and ib: "iter s' = 2" and cs': "coherent s' c2'"
          by auto
        define mi2 where "mi2 = MergeIterator s' b 2 r [c1, c2']"
        have rs: "refresh_second (set_heap (store (heap mi) (second mi) c2') mi) = Inr (mi2, valid s')"
          using r sk by (simp add: mi refresh_second_def set_heap_def set_small_def mi2_def)
        have step: "fix_loop (Suc n) mi =
            (if \<not> valid s' then (if second mi2 = iter (small mi2) \<and> valid (big mi2)
                                 then returnR (MergeIterator_swap mi2) else returnR mi2)
             else fix_loop n mi2)" if "N1 \<le> n" for n
          using fix_loop_tie_step [OF _ _ _ rs, of n] nx vs tie that by (simp add: mi)
        have wfm2: "wf_iter (Merge mi2)" using wf wf2 r ib by (simp add: mi2_def)
        have fr2: "fix_ready mi2"
          using wfm2 p p2 c cs' r ib by (simp add: fix_ready_def mi2_def)
        have rm2: "remaining (Merge mi2) = remaining (Merge mi)"
          using merge_streams_tie [OF ne hk] rem by (simp add: mi mi2_def)
        have sz2: "size mi2 = size mi" using sz by (simp add: mi mi2_def)
        show ?thesis
        proof (cases "valid s'")
          case False
          have "\<forall>n\<ge>Suc N1. fix_loop n mi = Some (Inr (MergeIterator_swap mi2))"
            using step r False vb ib by (intro all_ge_Suc) (simp del: fix_loop.simps add: mi2_def returnR_def)
          moreover have "wf_iter (Merge (MergeIterator_swap mi2))"
            using wf wf2 r ib by (simp add: mi2_def MergeIterator_swap_def)
          moreover have "positioned (Merge (MergeIterator_swap mi2))"
            using p p2 c cs' r ib False by (simp add: mi2_def I1_strict_def MergeIterator_swap_def)
          moreover have "size (MergeIterator_swap mi2) = size mi"
            using sz2 by (simp add: mi2_def MergeIterator_swap_def)
          moreover have "remaining (Merge (MergeIterator_swap mi2)) = remaining (Merge mi)"
            using rm2 by simp
          ultimately show ?thesis by blast
        next
          case True
          have "length (remaining (deref (heap mi2) 2)) < length (remaining (deref (heap mi) 2))"
            using rem ne by (simp add: mi mi2_def)
          from less.hyps [OF this fr2] vb sz S obtain N2 mi' where
            run: "\<forall>n\<ge>N2. fix_loop n mi2 = Some (Inr mi')"
            and res: "wf_iter (Merge mi')" "positioned (Merge mi')" "size mi' = size mi2"
              "remaining (Merge mi') = remaining (Merge mi2)"
            by (auto simp: mi2_def)
          have "\<forall>n\<ge>Suc (max N1 N2). fix_loop n mi = Some (Inr mi')"
            using step run True by (intro all_ge_Suc) (simp del: fix_loop.simps)
          moreover have "size mi' = size mi" using res(3) sz2 by simp
          moreover have "remaining (Merge mi') = remaining (Merge mi)"
            using res(4) rm2 by (simp del: remaining.simps)
          ultimately show ?thesis using res(1,2) by blast
        qed
      qed
    qed
  qed
qed


lemma fix_ok:
  assumes H: "\<And>c :: ('k::linorder, 'v) Iterator.
      size c = S \<Longrightarrow> wf_iter c \<Longrightarrow> positioned c \<Longrightarrow> remaining c \<noteq> [] \<Longrightarrow> next_ok c"
    and fr: "fix_ready (mi :: ('k, 'v) MergeIterator)" and S: "size (deref (heap mi) 2) = S"
  shows "\<exists>N mi'. (\<forall>n\<ge>N. MergeIterator_fix n mi = Some (Inr mi')) \<and> wf_iter (Merge mi') \<and>
        positioned (Merge mi') \<and> size mi' = size mi \<and> remaining (Merge mi') = remaining (Merge mi)"
proof (cases "valid (big mi)")
  case True
  from fix_loop_ok [OF H fr True S] True show ?thesis
    by (simp add: MergeIterator_fix.simps del: remaining.simps wf_iter.simps positioned.simps)
next
  case False
  then have "\<forall>n\<ge>0. MergeIterator_fix n mi = Some (Inr mi)"
    by (simp add: MergeIterator_fix.simps returnR_def)
  moreover have "wf_iter (Merge mi)" using fr by (simp add: fix_ready_def)
  moreover have "positioned (Merge mi)" using fr False by (simp add: fix_ready_def I1_strict_def)
  ultimately show ?thesis by blast
qed

lemma positioned_Merge_valid:
  assumes "wf_iter (Merge mi)" "positioned (Merge mi)"
  shows "valid (small mi) = (remaining (Merge mi) \<noteq> [])"
  using positioned_head [OF assms] by (simp add: MergeIterator_Valid_def del: remaining.simps)

lemma iter_Next_Merge:
  "\<forall>n\<ge>N. MergeIterator_Next n mi = Some (Inr mi') \<Longrightarrow>
   \<forall>n\<ge>N. iter_Next n (Merge mi) = Some (Inr (Merge mi'))"
  by (simp add: returnR_def)

lemma deref_store_same: "deref h a \<noteq> Nil \<Longrightarrow> deref (store h a x) a = x"
  by (auto simp: deref_def store_def split: if_splits)

lemma node_next_ok:
  assumes nx: "\<forall>n\<ge>N. iter_Next n obj = Some (Inr obj')"
    and wf: "wf_iter obj'" and p: "positioned obj'"
    and d: "deref h (iter nd) = obj"
  shows "\<exists>nd'. (\<forall>n\<ge>N. node_next n nd h = Some (Inr (nd', store h (iter nd) obj'))) \<and>
           iter nd' = iter nd \<and> coherent nd' obj'"
proof -
  from nx have "iter_Next N obj = Some (Inr obj')" by simp
  then have "obj \<noteq> Nil" by auto
  with d have "deref (store h (iter nd) obj') (iter nd) = obj'" by (simp add: deref_store_same)
  from node_setKey_ok [OF wf p this] obtain nd' where
    sk: "node_setKey nd (store h (iter nd) obj') = Inr nd'" and i: "iter nd' = iter nd"
    and c: "coherent nd' obj'" by blast
  have "\<forall>n\<ge>N. node_next n nd h = Some (Inr (nd', store h (iter nd) obj'))"
    using nx d sk by (simp add: node_next_eq_generic node_next_generic_def
        node_setKey_eq_generic [symmetric] returnR_def)
  with i c show ?thesis by blast
qed

lemma iter_Next_ok:
  "wf_iter (it :: ('k::linorder, 'v) Iterator) \<Longrightarrow> positioned it \<Longrightarrow> remaining it \<noteq> [] \<Longrightarrow> next_ok it"
proof (induction "size it" arbitrary: it rule: less_induct)
  case less
  show ?case
  proof (cases it)
    case Nil
    with less.prems show ?thesis by simp
  next
    case (Leaf s)
    have "\<forall>n\<ge>0. iter_Next n it = Some (Inr (Leaf (source_Next s)))" by (simp add: Leaf)
    moreover have "remaining (Leaf (source_Next s)) = tl (remaining it)"
      by (simp add: Leaf source_Next_def drop_Suc tl_drop)
    moreover have "size (Leaf (source_Next s)) = size it" by (simp add: Leaf)
    ultimately show ?thesis unfolding next_ok_def
      by (intro exI [of _ 0] exI [of _ "Leaf (source_Next s)"]) simp
  next
    case (Concat s)
    have "\<forall>n\<ge>0. iter_Next n it = Some (Inr (Concat (source_Next s)))" by (simp add: Concat)
    moreover have "remaining (Concat (source_Next s)) = tl (remaining it)"
      by (simp add: Concat source_Next_def drop_Suc tl_drop)
    moreover have "size (Concat (source_Next s)) = size it" by (simp add: Concat)
    ultimately show ?thesis unfolding next_ok_def
      by (intro exI [of _ 0] exI [of _ "Concat (source_Next s)"]) simp
  next
    case (Merge mi)
    from less.prems(1) have wfm: "wf_iter (Merge mi)" by (simp add: Merge)
    then obtain s b r c1 c2 where mi: "mi = MergeIterator s b 2 r [c1, c2]"
      and wf: "wf_iter c1" "wf_iter c2"
      and refs: "iter s = Suc 0 \<and> iter b = 2 \<or> iter s = 2 \<and> iter b = Suc 0"
      by (rule wf_iter_MergeE)
    from less.prems(2) have pm: "positioned (Merge mi)" by (simp add: Merge)
    then have p: "positioned c1" "positioned c2"
      and cs: "coherent s (deref [c1, c2] (iter s))" and cb: "coherent b (deref [c1, c2] (iter b))"
      and vb: "valid b \<Longrightarrow> valid s" and st: "I1_strict mi"
      by (simp_all add: mi)
    from less.prems(3) positioned_Merge_valid [OF wfm pm] have vs: "valid s"
      by (simp add: Merge mi)
    have H1: "next_ok c" if "size c = size c1" "wf_iter c" "positioned c" "remaining c \<noteq> []"
      for c :: "('k, 'v) Iterator"
      using less.hyps [of c] that by (simp add: Merge mi)
    have H2: "next_ok c" if "size c = size c2" "wf_iter c" "positioned c" "remaining c \<noteq> []"
      for c :: "('k, 'v) Iterator"
      using less.hyps [of c] that by (simp add: Merge mi)
    from refs show ?thesis
    proof
      assume r: "iter s = Suc 0 \<and> iter b = 2"
      with cs cb have c: "coherent s c1" "coherent b c2" by simp_all
      from c vs have ne: "remaining c1 \<noteq> []" by (simp add: coherent_def)
      have bf: "remaining c2 \<noteq> [] \<Longrightarrow> before r (fst (hd (remaining c1))) (fst (hd (remaining c2)))"
        using I1_strict_before [OF st] c vb by (simp add: mi coherent_def)
      from H1 [OF refl wf(1) p(1) ne] obtain N1 c1' where
        nx: "\<forall>n\<ge>N1. iter_Next n c1 = Some (Inr c1')" and wf1: "wf_iter c1'"
        and p1: "positioned c1'" and sz: "size c1' = size c1"
        and rem: "remaining c1' = tl (remaining c1)"
        by (auto simp: next_ok_def)
      from node_next_ok [OF nx wf1 p1, of "[c1, c2]" s] r obtain s' where
        nn: "\<forall>n\<ge>N1. node_next n s [c1, c2] = Some (Inr (s', [c1', c2]))"
        and i: "iter s' = Suc 0" and cs': "coherent s' c1'"
        by auto
      define mi1 where "mi1 = MergeIterator s' b 2 r [c1', c2]"
      have fr: "fix_ready mi1"
        using wf wf1 p p1 c cs' r i by (simp add: fix_ready_def mi1_def)
      from fix_ok [OF H2 fr] obtain N2 mi' where
        run: "\<forall>n\<ge>N2. MergeIterator_fix n mi1 = Some (Inr mi')"
        and res: "wf_iter (Merge mi')" "positioned (Merge mi')" "size mi' = size mi1"
          "remaining (Merge mi') = remaining (Merge mi1)"
        by (auto simp: mi1_def)
      have "\<forall>n\<ge>Suc (max N1 N2). MergeIterator_Next n mi = Some (Inr mi')"
        using nn run by (intro all_ge_Suc) (simp add: mi mi1_def set_heap_def set_small_def)
      then have "\<forall>n\<ge>Suc (max N1 N2). iter_Next n it = Some (Inr (Merge mi'))"
        unfolding Merge by (rule iter_Next_Merge)
      moreover have "size (Merge mi') = size it"
        using res(3) sz by (simp add: Merge mi mi1_def)
      moreover have "remaining (Merge mi') = tl (remaining it)"
        using res(4) rem merge_streams_first [OF ne bf] by (simp add: Merge mi mi1_def)
      ultimately show ?thesis using res(1,2) unfolding next_ok_def by blast
    next
      assume r: "iter s = 2 \<and> iter b = Suc 0"
      with cs cb have c: "coherent s c2" "coherent b c1" by simp_all
      from c vs have ne: "remaining c2 \<noteq> []" by (simp add: coherent_def)
      have bf: "remaining c1 \<noteq> [] \<Longrightarrow> before r (fst (hd (remaining c2))) (fst (hd (remaining c1)))"
        using I1_strict_before [OF st] c vb by (simp add: mi coherent_def)
      from H2 [OF refl wf(2) p(2) ne] obtain N1 c2' where
        nx: "\<forall>n\<ge>N1. iter_Next n c2 = Some (Inr c2')" and wf2: "wf_iter c2'"
        and p2: "positioned c2'" and sz: "size c2' = size c2"
        and rem: "remaining c2' = tl (remaining c2)"
        by (auto simp: next_ok_def)
      from node_next_ok [OF nx wf2 p2, of "[c1, c2]" s] r obtain s' where
        nn: "\<forall>n\<ge>N1. node_next n s [c1, c2] = Some (Inr (s', [c1, c2']))"
        and i: "iter s' = 2" and cs': "coherent s' c2'"
        by auto
      define mi1 where "mi1 = MergeIterator s' b 2 r [c1, c2']"
      have fr: "fix_ready mi1"
        using wf wf2 p p2 c cs' r i by (simp add: fix_ready_def mi1_def)
      have H2': "next_ok c" if "size c = size c2'" "wf_iter c" "positioned c" "remaining c \<noteq> []"
      for c :: "('k, 'v) Iterator"
        using H2 [of c] that sz by simp
      from fix_ok [OF H2' fr] obtain N2 mi' where
        run: "\<forall>n\<ge>N2. MergeIterator_fix n mi1 = Some (Inr mi')"
        and res: "wf_iter (Merge mi')" "positioned (Merge mi')" "size mi' = size mi1"
          "remaining (Merge mi') = remaining (Merge mi1)"
        by (auto simp: mi1_def)
      have "\<forall>n\<ge>Suc (max N1 N2). MergeIterator_Next n mi = Some (Inr mi')"
        using nn run by (intro all_ge_Suc) (simp add: mi mi1_def set_heap_def set_small_def)
      then have "\<forall>n\<ge>Suc (max N1 N2). iter_Next n it = Some (Inr (Merge mi'))"
        unfolding Merge by (rule iter_Next_Merge)
      moreover have "size (Merge mi') = size it"
        using res(3) sz by (simp add: Merge mi mi1_def)
      moreover have "remaining (Merge mi') = tl (remaining it)"
        using res(4) rem merge_streams_second [OF ne bf] by (simp add: Merge mi mi1_def)
      ultimately show ?thesis using res(1,2) unfolding next_ok_def by blast
    qed
  qed
qed

section \<open>Rewind and Seek on a well-formed tree\<close>

lemma node_Rewind_ok:
  assumes nx: "\<forall>n\<ge>N. iter_Rewind n obj = Some (Inr obj')"
    and wf: "wf_iter obj'" and p: "positioned obj'"
    and d: "deref h (iter nd) = obj"
  shows "\<exists>nd'. (\<forall>n\<ge>N. node_rewind n nd h = Some (Inr (nd', store h (iter nd) obj'))) \<and>
           iter nd' = iter nd \<and> coherent nd' obj'"
proof -
  from nx have "iter_Rewind N obj = Some (Inr obj')" by simp
  then have "obj \<noteq> Nil" by auto
  with d have "deref (store h (iter nd) obj') (iter nd) = obj'" by (simp add: deref_store_same)
  from node_setKey_ok [OF wf p this] obtain nd' where
    sk: "node_setKey nd (store h (iter nd) obj') = Inr nd'" and i: "iter nd' = iter nd"
    and c: "coherent nd' obj'" by blast
  have "\<forall>n\<ge>N. node_rewind n nd h = Some (Inr (nd', store h (iter nd) obj'))"
    using nx d sk by (simp add: node_rewind.simps returnR_def)
  with i c show ?thesis by blast
qed

lemma iter_Rewind_Merge:
  "\<forall>n\<ge>N. MergeIterator_Rewind n mi = Some (Inr mi') \<Longrightarrow>
   \<forall>n\<ge>N. iter_Rewind n (Merge mi) = Some (Inr (Merge mi'))"
  by (simp add: returnR_def)

lemma iter_Rewind_ok:
  "wf_iter (it :: ('k::linorder, 'v) Iterator) \<Longrightarrow>
   \<exists>N it'. (\<forall>n\<ge>N. iter_Rewind n it = Some (Inr it')) \<and> wf_iter it' \<and> positioned it' \<and>
     size it' = size it \<and> remaining it' = all_entries it"
proof (induction it rule: wf_iter.induct)
  case 1
  then show ?case by simp
next
  case (2 s)
  have "\<forall>n\<ge>0. iter_Rewind n (Leaf s) = Some (Inr (Leaf (source_Rewind s)))" by simp
  then show ?case
    by (intro exI [of _ 0] exI [of _ "Leaf (source_Rewind s)"]) (simp add: source_Rewind_def)
next
  case (3 c)
  have "\<forall>n\<ge>0. iter_Rewind n (Concat c) = Some (Inr (Concat (source_Rewind c)))" by simp
  then show ?case
    by (intro exI [of _ 0] exI [of _ "Concat (source_Rewind c)"]) (simp add: source_Rewind_def)
next
  case (4 mi)
  from \<open>wf_iter (Merge mi)\<close> obtain s b r c1 c2 where mi: "mi = MergeIterator s b 2 r [c1, c2]"
    and wf: "wf_iter c1" "wf_iter c2"
    and refs: "iter s = Suc 0 \<and> iter b = 2 \<or> iter s = 2 \<and> iter b = Suc 0"
    by (rule wf_iter_MergeE)
  from "4.IH"(1) wf(1) obtain N1 c1' where
    nx1: "\<forall>n\<ge>N1. iter_Rewind n c1 = Some (Inr c1')" and wf1: "wf_iter c1'"
    and p1: "positioned c1'" and sz1: "size c1' = size c1" and rm1: "remaining c1' = all_entries c1"
    by (auto simp: mi)
  from "4.IH"(2) wf(2) obtain N2 c2' where
    nx2: "\<forall>n\<ge>N2. iter_Rewind n c2 = Some (Inr c2')" and wf2: "wf_iter c2'"
    and p2: "positioned c2'" and sz2: "size c2' = size c2" and rm2: "remaining c2' = all_entries c2"
    by (auto simp: mi)
  have H: "next_ok c" if "size c = size c2'" "wf_iter c" "positioned c" "remaining c \<noteq> []"
    for c :: "('k, 'v) Iterator"
    using that by (simp add: iter_Next_ok)
  from refs show ?case
  proof
    assume r: "iter s = Suc 0 \<and> iter b = 2"
    from node_Rewind_ok [OF nx1 wf1 p1, of "[c1, c2]" s] r obtain s' where
      n1: "\<forall>n\<ge>N1. node_rewind n s [c1, c2] = Some (Inr (s', [c1', c2]))"
      and i1: "iter s' = Suc 0" and cs': "coherent s' c1'"
      by auto
    from node_Rewind_ok [OF nx2 wf2 p2, of "[c1', c2]" b] r obtain b' where
      n2: "\<forall>n\<ge>N2. node_rewind n b [c1', c2] = Some (Inr (b', [c1', c2']))"
      and i2: "iter b' = 2" and cb': "coherent b' c2'"
      by auto
    define mi1 where "mi1 = MergeIterator s' b' 2 r [c1', c2']"
    have fr: "fix_ready mi1"
      using wf1 wf2 p1 p2 cs' cb' i1 i2 by (simp add: fix_ready_def mi1_def)
    from fix_ok [OF H fr] obtain N3 mi' where
      run: "\<forall>n\<ge>N3. MergeIterator_fix n mi1 = Some (Inr mi')"
      and res: "wf_iter (Merge mi')" "positioned (Merge mi')" "size mi' = size mi1"
        "remaining (Merge mi') = remaining (Merge mi1)"
      by (auto simp: mi1_def)
    have "\<forall>n\<ge>Suc (max (max N1 N2) N3). MergeIterator_Rewind n mi = Some (Inr mi')"
      using n1 n2 run
      by (intro all_ge_Suc) (simp add: mi mi1_def set_heap_def set_small_def set_big_def)
    then have "\<forall>n\<ge>Suc (max (max N1 N2) N3). iter_Rewind n (Merge mi) = Some (Inr (Merge mi'))"
      by (rule iter_Rewind_Merge)
    moreover have "size (Merge mi') = size (Merge mi)"
      using res(3) sz1 sz2 by (simp add: mi mi1_def)
    moreover have "remaining (Merge mi') = all_entries (Merge mi)"
      using res(4) rm1 rm2 by (simp add: mi mi1_def)
    ultimately show ?thesis using res(1,2) by blast
  next
    assume r: "iter s = 2 \<and> iter b = Suc 0"
    from node_Rewind_ok [OF nx2 wf2 p2, of "[c1, c2]" s] r obtain s' where
      n1: "\<forall>n\<ge>N2. node_rewind n s [c1, c2] = Some (Inr (s', [c1, c2']))"
      and i1: "iter s' = 2" and cs': "coherent s' c2'"
      by auto
    from node_Rewind_ok [OF nx1 wf1 p1, of "[c1, c2']" b] r obtain b' where
      n2: "\<forall>n\<ge>N1. node_rewind n b [c1, c2'] = Some (Inr (b', [c1', c2']))"
      and i2: "iter b' = Suc 0" and cb': "coherent b' c1'"
      by auto
    define mi1 where "mi1 = MergeIterator s' b' 2 r [c1', c2']"
    have fr: "fix_ready mi1"
      using wf1 wf2 p1 p2 cs' cb' i1 i2 by (simp add: fix_ready_def mi1_def)
    from fix_ok [OF H fr] obtain N3 mi' where
      run: "\<forall>n\<ge>N3. MergeIterator_fix n mi1 = Some (Inr mi')"
      and res: "wf_iter (Merge mi')" "positioned (Merge mi')" "size mi' = size mi1"
        "remaining (Merge mi') = remaining (Merge mi1)"
      by (auto simp: mi1_def)
    have "\<forall>n\<ge>Suc (max (max N1 N2) N3). MergeIterator_Rewind n mi = Some (Inr mi')"
      using n1 n2 run
      by (intro all_ge_Suc) (simp add: mi mi1_def set_heap_def set_small_def set_big_def)
    then have "\<forall>n\<ge>Suc (max (max N1 N2) N3). iter_Rewind n (Merge mi) = Some (Inr (Merge mi'))"
      by (rule iter_Rewind_Merge)
    moreover have "size (Merge mi') = size (Merge mi)"
      using res(3) sz1 sz2 by (simp add: mi mi1_def)
    moreover have "remaining (Merge mi') = all_entries (Merge mi)"
      using res(4) rm1 rm2 by (simp add: mi mi1_def)
    ultimately show ?thesis using res(1,2) by blast
  qed
qed

lemma node_Seek_ok:
  assumes nx: "\<forall>n\<ge>N. iter_Seek n k obj = Some (Inr obj')"
    and wf: "wf_iter obj'" and p: "positioned obj'"
    and d: "deref h (iter nd) = obj"
  shows "\<exists>nd'. (\<forall>n\<ge>N. node_seek n k nd h = Some (Inr (nd', store h (iter nd) obj'))) \<and>
           iter nd' = iter nd \<and> coherent nd' obj'"
proof -
  from nx have "iter_Seek N k obj = Some (Inr obj')" by simp
  then have "obj \<noteq> Nil" by auto
  with d have "deref (store h (iter nd) obj') (iter nd) = obj'" by (simp add: deref_store_same)
  from node_setKey_ok [OF wf p this] obtain nd' where
    sk: "node_setKey nd (store h (iter nd) obj') = Inr nd'" and i: "iter nd' = iter nd"
    and c: "coherent nd' obj'" by blast
  have "\<forall>n\<ge>N. node_seek n k nd h = Some (Inr (nd', store h (iter nd) obj'))"
    using nx d sk by (simp add: node_seek.simps returnR_def)
  with i c show ?thesis by blast
qed

lemma iter_Seek_Merge:
  "\<forall>n\<ge>N. MergeIterator_Seek n k mi = Some (Inr mi') \<Longrightarrow>
   \<forall>n\<ge>N. iter_Seek n k (Merge mi) = Some (Inr (Merge mi'))"
  by (simp add: returnR_def)

lemma iter_Seek_ok:
  "wf_iter (it :: ('k::linorder, 'v) Iterator) \<Longrightarrow>
   \<exists>N it'. (\<forall>n\<ge>N. iter_Seek n k it = Some (Inr it')) \<and> wf_iter it' \<and> positioned it' \<and>
     size it' = size it"
proof (induction it rule: wf_iter.induct)
  case 1
  then show ?case by simp
next
  case (2 s)
  have "\<forall>n\<ge>0. iter_Seek n k (Leaf s) = Some (Inr (Leaf (source_Seek k s)))" by simp
  then show ?case
    by (intro exI [of _ 0] exI [of _ "Leaf (source_Seek k s)"]) (simp add: source_Seek_def)
next
  case (3 c)
  have "\<forall>n\<ge>0. iter_Seek n k (Concat c) = Some (Inr (Concat (source_Seek k c)))" by simp
  then show ?case
    by (intro exI [of _ 0] exI [of _ "Concat (source_Seek k c)"]) (simp add: source_Seek_def)
next
  case (4 mi)
  from \<open>wf_iter (Merge mi)\<close> obtain s b r c1 c2 where mi: "mi = MergeIterator s b 2 r [c1, c2]"
    and wf: "wf_iter c1" "wf_iter c2"
    and refs: "iter s = Suc 0 \<and> iter b = 2 \<or> iter s = 2 \<and> iter b = Suc 0"
    by (rule wf_iter_MergeE)
  from "4.IH"(1) wf(1) obtain N1 c1' where
    nx1: "\<forall>n\<ge>N1. iter_Seek n k c1 = Some (Inr c1')" and wf1: "wf_iter c1'"
    and p1: "positioned c1'" and sz1: "size c1' = size c1"
    by (auto simp: mi)
  from "4.IH"(2) wf(2) obtain N2 c2' where
    nx2: "\<forall>n\<ge>N2. iter_Seek n k c2 = Some (Inr c2')" and wf2: "wf_iter c2'"
    and p2: "positioned c2'" and sz2: "size c2' = size c2"
    by (auto simp: mi)
  have H: "next_ok c" if "size c = size c2'" "wf_iter c" "positioned c" "remaining c \<noteq> []"
    for c :: "('k, 'v) Iterator"
    using that by (simp add: iter_Next_ok)
  from refs show ?case
  proof
    assume r: "iter s = Suc 0 \<and> iter b = 2"
    from node_Seek_ok [OF nx1 wf1 p1, of "[c1, c2]" s] r obtain s' where
      n1: "\<forall>n\<ge>N1. node_seek n k s [c1, c2] = Some (Inr (s', [c1', c2]))"
      and i1: "iter s' = Suc 0" and cs': "coherent s' c1'"
      by auto
    from node_Seek_ok [OF nx2 wf2 p2, of "[c1', c2]" b] r obtain b' where
      n2: "\<forall>n\<ge>N2. node_seek n k b [c1', c2] = Some (Inr (b', [c1', c2']))"
      and i2: "iter b' = 2" and cb': "coherent b' c2'"
      by auto
    define mi1 where "mi1 = MergeIterator s' b' 2 r [c1', c2']"
    have fr: "fix_ready mi1"
      using wf1 wf2 p1 p2 cs' cb' i1 i2 by (simp add: fix_ready_def mi1_def)
    from fix_ok [OF H fr] obtain N3 mi' where
      run: "\<forall>n\<ge>N3. MergeIterator_fix n mi1 = Some (Inr mi')"
      and res: "wf_iter (Merge mi')" "positioned (Merge mi')" "size mi' = size mi1"
        "remaining (Merge mi') = remaining (Merge mi1)"
      by (auto simp: mi1_def)
    have "\<forall>n\<ge>Suc (max (max N1 N2) N3). MergeIterator_Seek n k mi = Some (Inr mi')"
      using n1 n2 run
      by (intro all_ge_Suc) (simp add: mi mi1_def set_heap_def set_small_def set_big_def)
    then have "\<forall>n\<ge>Suc (max (max N1 N2) N3). iter_Seek n k (Merge mi) = Some (Inr (Merge mi'))"
      by (rule iter_Seek_Merge)
    moreover have "size (Merge mi') = size (Merge mi)"
      using res(3) sz1 sz2 by (simp add: mi mi1_def)
    ultimately show ?thesis using res(1,2) by blast
  next
    assume r: "iter s = 2 \<and> iter b = Suc 0"
    from node_Seek_ok [OF nx2 wf2 p2, of "[c1, c2]" s] r obtain s' where
      n1: "\<forall>n\<ge>N2. node_seek n k s [c1, c2] = Some (Inr (s', [c1, c2']))"
      and i1: "iter s' = 2" and cs': "coherent s' c2'"
      by auto
    from node_Seek_ok [OF nx1 wf1 p1, of "[c1, c2']" b] r obtain b' where
      n2: "\<forall>n\<ge>N1. node_seek n k b [c1, c2'] = Some (Inr (b', [c1', c2']))"
      and i2: "iter b' = Suc 0" and cb': "coherent b' c1'"
      by auto
    define mi1 where "mi1 = MergeIterator s' b' 2 r [c1', c2']"
    have fr: "fix_ready mi1"
      using wf1 wf2 p1 p2 cs' cb' i1 i2 by (simp add: fix_ready_def mi1_def)
    from fix_ok [OF H fr] obtain N3 mi' where
      run: "\<forall>n\<ge>N3. MergeIterator_fix n mi1 = Some (Inr mi')"
      and res: "wf_iter (Merge mi')" "positioned (Merge mi')" "size mi' = size mi1"
        "remaining (Merge mi') = remaining (Merge mi1)"
      by (auto simp: mi1_def)
    have "\<forall>n\<ge>Suc (max (max N1 N2) N3). MergeIterator_Seek n k mi = Some (Inr mi')"
      using n1 n2 run
      by (intro all_ge_Suc) (simp add: mi mi1_def set_heap_def set_small_def set_big_def)
    then have "\<forall>n\<ge>Suc (max (max N1 N2) N3). iter_Seek n k (Merge mi) = Some (Inr (Merge mi'))"
      by (rule iter_Seek_Merge)
    moreover have "size (Merge mi') = size (Merge mi)"
      using res(3) sz1 sz2 by (simp add: mi mi1_def)
    ultimately show ?thesis using res(1,2) by blast
  qed
qed

section \<open>The traversal of a built tree\<close>

lemma collect_ok:
  "wf_iter (it :: ('k::linorder, 'v) Iterator) \<Longrightarrow> positioned it \<Longrightarrow>
   \<exists>N. \<forall>n\<ge>N. collect n it = Some (Inr (map wrap (remaining it)))"
proof (induction "length (remaining it)" arbitrary: it rule: less_induct)
  case less
  note hd = positioned_head [OF less.prems]
  show ?case
  proof (cases "remaining it = []")
    case True
    with hd have "\<forall>n\<ge>Suc 0. collect n it = Some (Inr (map wrap (remaining it)))"
      by (intro all_ge_Suc) (simp add: returnR_def)
    then show ?thesis by blast
  next
    case False
    from iter_Next_ok [OF less.prems False] obtain N1 it' where
      nx: "\<forall>n\<ge>N1. iter_Next n it = Some (Inr it')" and wf: "wf_iter it'"
      and p: "positioned it'" and rem: "remaining it' = tl (remaining it)"
      by (auto simp: next_ok_def)
    from rem False have "length (remaining it') < length (remaining it)" by simp
    from less.hyps [OF this wf p] obtain N2 where
      run: "\<forall>n\<ge>N2. collect n it' = Some (Inr (map wrap (remaining it')))" by blast
    have "\<forall>n\<ge>Suc (max N1 N2). collect n it = Some (Inr (map wrap (remaining it)))"
      using hd False nx run rem
      by (intro all_ge_Suc) (cases "remaining it"; simp add: returnR_def wrap_def)
    then show ?thesis by blast
  qed
qed

lemma traverse_ok:
  assumes "wf_iter (NewMergeIterator iters rv)"
  shows "\<exists>N. \<forall>n\<ge>N. traverse n iters rv =
           Some (Inr (map wrap (all_entries (NewMergeIterator iters rv))))"
proof -
  from iter_Rewind_ok [OF assms] obtain N1 it' where
    rw: "\<forall>n\<ge>N1. iter_Rewind n (NewMergeIterator iters rv) = Some (Inr it')"
    and wf: "wf_iter it'" and p: "positioned it'"
    and rem: "remaining it' = all_entries (NewMergeIterator iters rv)"
    by blast
  from collect_ok [OF wf p] obtain N2 where
    run: "\<forall>n\<ge>N2. collect n it' = Some (Inr (map wrap (remaining it')))" by blast
  have "\<forall>n\<ge>max N1 N2. traverse n iters rv =
           Some (Inr (map wrap (all_entries (NewMergeIterator iters rv))))"
    using rw run rem by (simp add: traverse_def)
  then show ?thesis by blast
qed

lemma addr_of_wf [simp]: "wf_iter a \<Longrightarrow> addr_of n a = n"
  by (cases a) (simp_all add: addr_of_def)

lemma NewMergeIterator_wf:
  "iters \<noteq> [] \<Longrightarrow> \<forall>it\<in>set iters. wf_iter it \<Longrightarrow> wf_iter (NewMergeIterator iters rv)"
proof (induction iters rv rule: NewMergeIterator.induct)
  case (1 iters rv)
  consider (one) a where "iters = [a]" | (two) a b where "iters = [a, b]" | (many) "2 < length iters"
    using "1.prems"(1) by (cases iters; cases "tl iters"; cases "tl (tl iters)") auto
  then show ?case
  proof cases
    case one
    with "1.prems" show ?thesis by (simp add: NewMergeIterator_1)
  next
    case two
    with "1.prems" show ?thesis by (simp add: NewMergeIterator_2 setIterator_def zero_node_def)
  next
    case many
    let ?mid = "length iters div 2"
    from many have m: "0 < ?mid" "?mid < length iters" by simp_all
    have l: "wf_iter (NewMergeIterator (take ?mid iters) rv)"
      using many m "1.prems" by (intro "1.IH"(1)) (auto dest: in_set_takeD)
    have r: "wf_iter (NewMergeIterator (drop ?mid iters) rv)"
      using many m "1.prems" by (intro "1.IH"(2)) (auto dest: in_set_dropD)
    show ?thesis
      using l r by (simp add: NewMergeIterator_many [OF many] NewMergeIterator_2 setIterator_def zero_node_def)
  qed
qed

section \<open>Order and precedence of the merged stream\<close>

lemma key_lt_Some [simp]: "key_lt rv (Some a) (Some b) = before rv a b"
  by (auto simp: key_lt_def before_def)

lemma key_le_Some [simp]: "key_le rv (Some a) (Some b) = (\<not> before rv b a)"
  by (auto simp: key_le_def before_def)

lemma set_merge_streams: "set (merge_streams rv xs ys) \<subseteq> set xs \<union> set ys"
  by (induction rv xs ys rule: merge_streams.induct) auto

lemma keys_merge_streams:
  "fst ` set (merge_streams rv xs ys) = fst ` set xs \<union> fst ` set ys"
  by (induction rv xs ys rule: merge_streams.induct) auto

lemma before_trans: "before rv a b \<Longrightarrow> before rv b c \<Longrightarrow> before rv a c"
  by (auto simp: before_def split: if_splits)

lemma before_total: "a \<noteq> b \<Longrightarrow> \<not> before rv a b \<Longrightarrow> before rv b a"
  by (auto simp: before_def split: if_splits)

lemma not_before_trans: "\<not> before rv b a \<Longrightarrow> \<not> before rv c b \<Longrightarrow> \<not> before rv c a"
  by (auto simp: before_def split: if_splits)

lemma before_not_before_trans: "before rv a b \<Longrightarrow> \<not> before rv c b \<Longrightarrow> \<not> before rv c a"
  by (auto simp: before_def split: if_splits)

lemma sorted_le_merge_streams:
  "sorted_wrt (\<lambda>a b. \<not> before rv b a) (map fst xs) \<Longrightarrow>
   sorted_wrt (\<lambda>a b. \<not> before rv b a) (map fst ys) \<Longrightarrow>
   sorted_wrt (\<lambda>a b. \<not> before rv b a) (map fst (merge_streams rv xs ys))"
proof (induction rv xs ys rule: merge_streams.induct)
  case (3 rv x xs y ys)
  show ?case
  proof (cases "fst x = fst y")
    case True
    with 3 show ?thesis by simp
  next
    case ne: False
    show ?thesis
    proof (cases "before rv (fst x) (fst y)")
      case True
      have "\<not> before rv (fst z) (fst x)" if "z \<in> set (merge_streams rv xs (y # ys))" for z
      proof -
        from that set_merge_streams have "z \<in> set xs \<or> z = y \<or> z \<in> set ys" by fastforce
        with "3.prems" True show ?thesis
          by (auto dest: before_asym before_not_before_trans)
      qed
      with 3 ne True show ?thesis by auto
    next
      case False
      with ne have yx: "before rv (fst y) (fst x)" by (simp add: before_total)
      have "\<not> before rv (fst z) (fst y)" if "z \<in> set (merge_streams rv (x # xs) ys)" for z
      proof -
        from that set_merge_streams have "z = x \<or> z \<in> set xs \<or> z \<in> set ys" by fastforce
        with "3.prems" yx show ?thesis
          by (auto dest: before_asym before_not_before_trans)
      qed
      with 3 ne False show ?thesis by auto
    qed
  qed
qed simp_all

lemma sorted_lt_merge_streams:
  "sorted_wrt (before rv) (map fst xs) \<Longrightarrow> sorted_wrt (before rv) (map fst ys) \<Longrightarrow>
   sorted_wrt (before rv) (map fst (merge_streams rv xs ys))"
proof (induction rv xs ys rule: merge_streams.induct)
  case (3 rv x xs y ys)
  show ?case
  proof (cases "fst x = fst y")
    case True
    with 3 show ?thesis by simp
  next
    case ne: False
    show ?thesis
    proof (cases "before rv (fst x) (fst y)")
      case True
      have "before rv (fst x) (fst z)" if "z \<in> set (merge_streams rv xs (y # ys))" for z
      proof -
        from that set_merge_streams have "z \<in> set xs \<or> z = y \<or> z \<in> set ys" by fastforce
        with "3.prems" True show ?thesis
          by (auto dest: before_trans)
      qed
      with 3 ne True show ?thesis by auto
    next
      case False
      with ne have yx: "before rv (fst y) (fst x)" by (simp add: before_total)
      have "before rv (fst y) (fst z)" if "z \<in> set (merge_streams rv (x # xs) ys)" for z
      proof -
        from that set_merge_streams have "z = x \<or> z \<in> set xs \<or> z \<in> set ys" by fastforce
        with "3.prems" yx show ?thesis
          by (auto dest: before_trans)
      qed
      with 3 ne False show ?thesis by auto
    qed
  qed
qed simp_all

lemma sorted_lt_map_of_None:
  "sorted_wrt (before rv) (map fst (x # xs)) \<Longrightarrow> before rv k (fst x) \<Longrightarrow> map_of (x # xs) k = None"
  by (auto simp: map_of_eq_None_iff dest: before_trans before_asym)

lemma map_of_merge_streams:
  "sorted_wrt (before rv) (map fst xs) \<Longrightarrow> sorted_wrt (before rv) (map fst ys) \<Longrightarrow>
   map_of (merge_streams rv xs ys) k = (case map_of xs k of Some v \<Rightarrow> Some v | None \<Rightarrow> map_of ys k)"
proof (induction rv xs ys rule: merge_streams.induct)
  case (1 rv ys)
  then show ?case by simp
next
  case (2 rv x xs)
  then show ?case by (simp split: option.splits)
next
  case (3 rv x xs y ys)
  show ?case
  proof (cases "fst x = fst y")
    case True
    with 3 show ?thesis by (auto split: option.splits)
  next
    case ne: False
    show ?thesis
    proof (cases "before rv (fst x) (fst y)")
      case True
      with 3 ne show ?thesis by (auto split: option.splits)
    next
      case False
      with ne have yx: "before rv (fst y) (fst x)" by (simp add: before_total)
      from sorted_lt_map_of_None [OF "3.prems"(1) yx] have "map_of (x # xs) (fst y) = None" .
      with 3 ne False show ?thesis by (auto split: option.splits)
    qed
  qed
qed


lemma all_entries_NewMergeIterator_2:
  "all_entries (NewMergeIterator [a, b] rv) = merge_streams rv (all_entries a) (all_entries b)"
  by (simp add: NewMergeIterator_2)

lemma all_entries_NewMergeIterator_many:
  "2 < length iters \<Longrightarrow>
   all_entries (NewMergeIterator iters rv) =
     merge_streams rv (all_entries (NewMergeIterator (take (length iters div 2) iters) rv))
       (all_entries (NewMergeIterator (drop (length iters div 2) iters) rv))"
  by (simp add: NewMergeIterator_many all_entries_NewMergeIterator_2)

lemma sorted_le_NewMergeIterator:
  "iters \<noteq> [] \<Longrightarrow>
   \<forall>it\<in>set iters. sorted_wrt (\<lambda>a b. \<not> before rv b a) (map fst (all_entries it)) \<Longrightarrow>
   sorted_wrt (\<lambda>a b. \<not> before rv b a) (map fst (all_entries (NewMergeIterator iters rv)))"
proof (induction iters rv rule: NewMergeIterator.induct)
  case (1 iters rv)
  consider (one) a where "iters = [a]" | (two) a b where "iters = [a, b]" | (many) "2 < length iters"
    using "1.prems"(1) by (cases iters; cases "tl iters"; cases "tl (tl iters)") auto
  then show ?case
  proof cases
    case one
    with "1.prems" show ?thesis by (simp add: NewMergeIterator_1)
  next
    case two
    with "1.prems" show ?thesis
      by (simp add: all_entries_NewMergeIterator_2 sorted_le_merge_streams)
  next
    case many
    let ?mid = "length iters div 2"
    from many have m: "0 < ?mid" "?mid < length iters" by simp_all
    have l: "sorted_wrt (\<lambda>a b. \<not> before rv b a)
               (map fst (all_entries (NewMergeIterator (take ?mid iters) rv)))"
      using many m "1.prems" by (intro "1.IH"(1)) (auto dest: in_set_takeD)
    have r: "sorted_wrt (\<lambda>a b. \<not> before rv b a)
               (map fst (all_entries (NewMergeIterator (drop ?mid iters) rv)))"
      using many m "1.prems" by (intro "1.IH"(2)) (auto dest: in_set_dropD)
    show ?thesis
      using l r by (simp add: all_entries_NewMergeIterator_many [OF many] sorted_le_merge_streams)
  qed
qed

lemma first_value_append:
  "first_value k (xs @ ys) = (case first_value k xs of Some v \<Rightarrow> Some v | None \<Rightarrow> first_value k ys)"
  by (induction xs) (auto split: option.splits)

lemma sorted_lt_NewMergeIterator:
  "iters \<noteq> [] \<Longrightarrow>
   \<forall>it\<in>set iters. sorted_wrt (before rv) (map fst (all_entries it)) \<Longrightarrow>
   sorted_wrt (before rv) (map fst (all_entries (NewMergeIterator iters rv))) \<and>
   map_of (all_entries (NewMergeIterator iters rv)) k = first_value k (map all_entries iters)"
proof (induction iters rv rule: NewMergeIterator.induct)
  case (1 iters rv)
  consider (one) a where "iters = [a]" | (two) a b where "iters = [a, b]" | (many) "2 < length iters"
    using "1.prems"(1) by (cases iters; cases "tl iters"; cases "tl (tl iters)") auto
  then show ?case
  proof cases
    case one
    with "1.prems" show ?thesis by (simp add: NewMergeIterator_1 split: option.splits)
  next
    case two
    with "1.prems" show ?thesis
      by (simp add: all_entries_NewMergeIterator_2 sorted_lt_merge_streams map_of_merge_streams
          split: option.splits)
  next
    case many
    let ?mid = "length iters div 2"
    let ?L = "all_entries (NewMergeIterator (take ?mid iters) rv)"
    let ?R = "all_entries (NewMergeIterator (drop ?mid iters) rv)"
    from many have m: "0 < ?mid" "?mid < length iters" by simp_all
    have l: "sorted_wrt (before rv) (map fst ?L) \<and>
             map_of ?L k = first_value k (map all_entries (take ?mid iters))"
      using many m "1.prems" by (intro "1.IH"(1)) (auto dest: in_set_takeD)
    have r: "sorted_wrt (before rv) (map fst ?R) \<and>
             map_of ?R k = first_value k (map all_entries (drop ?mid iters))"
      using many m "1.prems" by (intro "1.IH"(2)) (auto dest: in_set_dropD)
    have "first_value k (map all_entries iters) =
          first_value k (map all_entries (take ?mid iters) @ map all_entries (drop ?mid iters))"
      by (simp flip: map_append)
    also have "\<dots> = (case map_of ?L k of Some v \<Rightarrow> Some v | None \<Rightarrow> map_of ?R k)"
      using l r by (simp add: first_value_append split: option.splits)
    finally show ?thesis
      using l r
      by (simp add: all_entries_NewMergeIterator_many [OF many] sorted_lt_merge_streams
          map_of_merge_streams)
  qed
qed

lemma first_value_index:
  "i < length ess \<Longrightarrow> map_of (ess ! i) k = Some v \<Longrightarrow> \<forall>j<i. map_of (ess ! j) k = None \<Longrightarrow>
   first_value k ess = Some v"
proof (induction ess arbitrary: i)
  case Nil
  then show ?case by simp
next
  case (Cons es ess)
  show ?case
  proof (cases i)
    case 0
    with Cons.prems show ?thesis by simp
  next
    case (Suc i')
    with Cons.prems have "map_of es k = None" by auto
    moreover have "first_value k ess = Some v"
      using Cons.prems Suc by (intro Cons.IH [of i']) auto
    ultimately show ?thesis by simp
  qed
qed

lemma sorted_lt_distinct: "sorted_wrt (before rv) ks \<Longrightarrow> distinct ks"
  by (induction ks) auto

lemma filter_key_single:
  "distinct (map fst es) \<Longrightarrow> map_of es k = Some v \<Longrightarrow> filter (\<lambda>e. fst e = k) es = [(k, v)]"
proof (induction es)
  case Nil
  then show ?case by simp
next
  case (Cons e es)
  show ?case
  proof (cases "fst e = k")
    case True
    with Cons.prems(1) have "k \<notin> fst ` set es" by auto
    then have "\<forall>x\<in>set es. fst x \<noteq> k" by blast
    then have "filter (\<lambda>e. fst e = k) es = []" by (simp add: filter_empty_conv)
    with True Cons.prems show ?thesis by (cases e) auto
  next
    case False
    with Cons show ?thesis by auto
  qed
qed

lemma filter_wrap:
  "filter (\<lambda>e. fst e = Some k) (map wrap es) = map wrap (filter (\<lambda>e. fst e = k) es)"
  by (induction es) (auto simp: wrap_def)

lemma traverse_sorted_enough_fuel:
  assumes "srcs \<noteq> []" and "\<forall>s\<in>set srcs. source_sorted rv s"
  shows "\<exists>N ys. (\<forall>n\<ge>N. traverse n (map Leaf srcs) rv = Some (Inr ys)) \<and>
           sorted_wrt (key_le rv) (map fst ys)"
proof -
  have "wf_iter (NewMergeIterator (map Leaf srcs) rv)"
    using assms(1) by (intro NewMergeIterator_wf) auto
  from traverse_ok [OF this] obtain N where
    run: "\<forall>n\<ge>N. traverse n (map Leaf srcs) rv =
            Some (Inr (map wrap (all_entries (NewMergeIterator (map Leaf srcs) rv))))"
    by blast
  have "sorted_wrt (\<lambda>a b. \<not> before rv b a)
          (map fst (all_entries (NewMergeIterator (map Leaf srcs) rv)))"
    using assms by (intro sorted_le_NewMergeIterator) (auto simp: source_sorted_def)
  then have "sorted_wrt (key_le rv)
          (map fst (map wrap (all_entries (NewMergeIterator (map Leaf srcs) rv))))"
    by (simp add: sorted_wrt_map wrap_def)
  with run show ?thesis by blast
qed

lemma traverse_precedence_enough_fuel:
  assumes "\<forall>s\<in>set srcs. source_strictly_sorted rv s"
    and "i < length srcs" and "(k, v) \<in> set (entries (srcs ! i))"
    and "\<forall>j<i. k \<notin> fst ` set (entries (srcs ! j))"
  shows "\<exists>N ys. (\<forall>n\<ge>N. traverse n (map Leaf srcs) rv = Some (Inr ys)) \<and>
           filter (\<lambda>e. fst e = Some k) ys = [(Some k, Some v)]"
proof -
  let ?es = "all_entries (NewMergeIterator (map Leaf srcs) rv)"
  from assms(2) have ne: "srcs \<noteq> []" by auto
  have "wf_iter (NewMergeIterator (map Leaf srcs) rv)"
    using ne by (intro NewMergeIterator_wf) auto
  from traverse_ok [OF this] obtain N where
    run: "\<forall>n\<ge>N. traverse n (map Leaf srcs) rv = Some (Inr (map wrap ?es))"
    by blast
  have st: "sorted_wrt (before rv) (map fst ?es) \<and>
            map_of ?es k = first_value k (map all_entries (map Leaf srcs))"
    using assms(1) ne by (intro sorted_lt_NewMergeIterator) (auto simp: source_strictly_sorted_def)
  have d: "distinct (map fst (entries (srcs ! i)))"
    using assms(1,2) by (auto simp: source_strictly_sorted_def intro: sorted_lt_distinct)
  have "first_value k (map all_entries (map Leaf srcs)) = Some v"
  proof (rule first_value_index [of i])
    show "i < length (map all_entries (map Leaf srcs))" using assms(2) by simp
    show "map_of (map all_entries (map Leaf srcs) ! i) k = Some v"
      using assms(2,3) d by simp
    show "\<forall>j<i. map_of (map all_entries (map Leaf srcs) ! j) k = None"
      using assms(2,4) by (auto simp: map_of_eq_None_iff)
  qed
  with st have "filter (\<lambda>e. fst e = k) ?es = [(k, v)]"
    by (intro filter_key_single) (auto intro: sorted_lt_distinct)
  then have "filter (\<lambda>e. fst e = Some k) (map wrap ?es) = [(Some k, Some v)]"
    by (simp add: filter_wrap wrap_def)
  with run show ?thesis by blast
qed

section \<open>The invariant after the public operations\<close>

lemma node_setKey_Valid:
  assumes "iter_Valid (deref h (iter nd)) = Inr v"
  shows "\<exists>nd'. node_setKey nd h = Inr nd' \<and> iter nd' = iter nd \<and> valid nd' = v"
  using assms
  by (cases "deref h (iter nd)")
    (auto simp: node_setKey_eq_generic node_setKey_generic_def)

lemma Merge_result:
  assumes "\<forall>n\<ge>(N::nat). bindR (f n) (\<lambda>mi'. returnR (Merge mi')) = Some (Inr it')"
  shows "\<exists>mi'. it' = Merge mi' \<and> (\<forall>n\<ge>N. f n = Some (Inr mi'))"
proof -
  from assms [rule_format, OF le_refl] have "bindR (f N) (\<lambda>mi'. returnR (Merge mi')) = Some (Inr it')"
    by simp
  then obtain mi' where m: "it' = Merge mi'" by (auto simp: bindR_eq_Inr)
  have "f n = Some (Inr mi')" if "N \<le> n" for n
    using assms [rule_format, OF that] unfolding m by (auto simp: bindR_eq_Inr)
  with m show ?thesis by blast
qed

text \<open>
  C3: in every state, whatever \<open>Rewind\<close>, \<open>Seek\<close> or \<open>Next\<close> of a \<open>MergeIterator\<close>
  returns satisfies I1. On a well-formed tree \<open>Rewind\<close> and \<open>Seek\<close> do return, and so
  does \<open>Next\<close> on a well-formed, positioned and valid tree, given enough fuel.
\<close>

theorem I1_after_every_operation:
  "(\<forall>mi'. MergeIterator_Rewind n mi = Some (Inr mi') \<longrightarrow> I1 mi') \<and>
   (\<forall>mi'. MergeIterator_Seek n k mi = Some (Inr mi') \<longrightarrow> I1 mi') \<and>
   (\<forall>mi'. MergeIterator_Next n mi = Some (Inr mi') \<longrightarrow> I1 mi') \<and>
   (wf_iter (Merge mi) \<longrightarrow>
      (\<exists>N mi'. (\<forall>n\<ge>N. MergeIterator_Rewind n mi = Some (Inr mi')) \<and> I1 mi') \<and>
      (\<exists>N mi'. (\<forall>n\<ge>N. MergeIterator_Seek n k mi = Some (Inr mi')) \<and> I1 mi')) \<and>
   (wf_iter (Merge mi) \<and> positioned (Merge mi) \<and> valid (small mi) \<longrightarrow>
      (\<exists>N mi'. (\<forall>n\<ge>N. MergeIterator_Next n mi = Some (Inr mi')) \<and> I1 mi'))"
proof (intro conjI impI allI)
  fix mi'
  show "MergeIterator_Rewind n mi = Some (Inr mi') \<Longrightarrow> I1 mi'" by (rule Rewind_I1)
  show "MergeIterator_Seek n k mi = Some (Inr mi') \<Longrightarrow> I1 mi'" by (rule Seek_I1)
  show "MergeIterator_Next n mi = Some (Inr mi') \<Longrightarrow> I1 mi'" by (rule Next_I1)
next
  assume wf: "wf_iter (Merge mi)"
  from iter_Rewind_ok [OF wf] obtain N it' where
    "\<forall>n\<ge>N. iter_Rewind n (Merge mi) = Some (Inr it')" by blast
  then have "\<forall>n\<ge>N. bindR (MergeIterator_Rewind n mi) (\<lambda>mi'. returnR (Merge mi')) = Some (Inr it')"
    by simp
  from Merge_result [OF this] obtain mi' where
    run: "\<forall>n\<ge>N. MergeIterator_Rewind n mi = Some (Inr mi')" by blast
  then have "I1 mi'" using Rewind_I1 [of N mi mi'] by simp
  with run show "\<exists>N mi'. (\<forall>n\<ge>N. MergeIterator_Rewind n mi = Some (Inr mi')) \<and> I1 mi'" by blast
next
  assume wf: "wf_iter (Merge mi)"
  from iter_Seek_ok [OF wf] obtain N it' where
    "\<forall>n\<ge>N. iter_Seek n k (Merge mi) = Some (Inr it')" by blast
  then have "\<forall>n\<ge>N. bindR (MergeIterator_Seek n k mi) (\<lambda>mi'. returnR (Merge mi')) = Some (Inr it')"
    by simp
  from Merge_result [OF this] obtain mi' where
    run: "\<forall>n\<ge>N. MergeIterator_Seek n k mi = Some (Inr mi')" by blast
  then have "I1 mi'" using Seek_I1 [of N k mi mi'] by simp
  with run show "\<exists>N mi'. (\<forall>n\<ge>N. MergeIterator_Seek n k mi = Some (Inr mi')) \<and> I1 mi'" by blast
next
  assume a: "wf_iter (Merge mi) \<and> positioned (Merge mi) \<and> valid (small mi)"
  then have "remaining (Merge mi) \<noteq> []" using positioned_Merge_valid [of mi] by blast
  with a iter_Next_ok [of "Merge mi"] obtain N it' where
    "\<forall>n\<ge>N. iter_Next n (Merge mi) = Some (Inr it')" by (auto simp: next_ok_def)
  then have "\<forall>n\<ge>N. bindR (MergeIterator_Next n mi) (\<lambda>mi'. returnR (Merge mi')) = Some (Inr it')"
    by simp
  from Merge_result [OF this] obtain mi' where
    run: "\<forall>n\<ge>N. MergeIterator_Next n mi = Some (Inr mi')" by blast
  then have "I1 mi'" using Next_I1 [of N mi mi'] by simp
  with run show "\<exists>N mi'. (\<forall>n\<ge>N. MergeIterator_Next n mi = Some (Inr mi')) \<and> I1 mi'" by blast
qed

section \<open>More fuel gives the same result\<close>

lemma le_res_simps [simp]: "le_res a a" "le_res None b"
  by (simp_all add: le_res_def)

lemma le_res_trans: "le_res a b \<Longrightarrow> le_res b c \<Longrightarrow> le_res a c"
  by (auto simp: le_res_def)

lemma le_res_Some: "le_res a b \<Longrightarrow> a = Some r \<Longrightarrow> b = Some r"
  by (auto simp: le_res_def)

lemma le_res_bindR:
  "le_res a a' \<Longrightarrow> (\<And>x. le_res (f x) (f' x)) \<Longrightarrow> le_res (bindR a f) (bindR a' f')"
  by (auto simp: le_res_def bindR_def split: option.splits sum.splits)

lemma le_res_mono_le:
  assumes "\<And>n. le_res (f n) (f (Suc n))" and "n \<le> m"
  shows "le_res (f n) (f (m::nat))"
  using assms(2)
proof (induction m)
  case 0
  then show ?case by simp
next
  case (Suc m)
  show ?case
  proof (cases "n = Suc m")
    case True
    then show ?thesis by simp
  next
    case False
    with Suc.prems have "n \<le> m" by simp
    from le_res_trans [OF Suc.IH [OF this] assms(1)] show ?thesis .
  qed
qed

lemma iter_Next_mono_aux:
  assumes "\<And>mi :: ('k::linorder, 'v) MergeIterator.
      le_res (MergeIterator_Next n mi) (MergeIterator_Next m mi)"
  shows "le_res (iter_Next n (it :: ('k, 'v) Iterator)) (iter_Next m it)"
proof (cases it)
  case (Merge mi)
  have "le_res (bindR (MergeIterator_Next n mi) (\<lambda>mi'. returnR (Merge mi')))
          (bindR (MergeIterator_Next m mi) (\<lambda>mi'. returnR (Merge mi')))"
    by (rule le_res_bindR) (rule assms, rule le_res_simps)
  then show ?thesis by (simp add: Merge)
qed simp_all

lemma node_next_mono_aux:
  assumes "\<And>mi :: ('k::linorder, 'v) MergeIterator.
      le_res (MergeIterator_Next n mi) (MergeIterator_Next m mi)"
  shows "le_res (node_next n nd (h :: ('k, 'v) Iterator list)) (node_next m nd h)"
  unfolding node_next_eq_generic node_next_generic_def
  by (rule le_res_bindR) (rule iter_Next_mono_aux, rule assms, rule le_res_simps)

lemma fix_mono_aux:
  assumes "\<And>mi :: ('k::linorder, 'v) MergeIterator. le_res (fix_loop n mi) (fix_loop m mi)"
  shows "le_res (MergeIterator_fix n (mi :: ('k, 'v) MergeIterator)) (MergeIterator_fix m mi)"
proof (cases "valid (big mi)")
  case True
  with assms [of mi] show ?thesis by (simp add: MergeIterator_fix.simps)
next
  case False
  then show ?thesis by (simp add: MergeIterator_fix.simps)
qed

lemma MergeIterator_Next_mono_aux:
  assumes "\<And>nd (h :: ('k::linorder, 'v) Iterator list). le_res (node_next n nd h) (node_next m nd h)"
    and "\<And>mi :: ('k, 'v) MergeIterator. le_res (MergeIterator_fix n mi) (MergeIterator_fix m mi)"
  shows "le_res (MergeIterator_Next (Suc n) (mi :: ('k, 'v) MergeIterator))
           (MergeIterator_Next (Suc m) mi)"
  unfolding MergeIterator_Next.simps
proof (rule le_res_bindR)
  show "le_res (node_next n (small mi) (heap mi)) (node_next m (small mi) (heap mi))"
    by (rule assms)
  fix x :: "'k node \<times> ('k, 'v) Iterator list"
  show "le_res (case x of (s, h) \<Rightarrow> MergeIterator_fix n (set_heap h (set_small s mi)))
          (case x of (s, h) \<Rightarrow> MergeIterator_fix m (set_heap h (set_small s mi)))"
    by (cases x) (simp add: assms(2))
qed

lemma fix_loop_mono_aux:
  assumes "\<And>it :: ('k::linorder, 'v) Iterator. le_res (iter_Next n it) (iter_Next m it)"
    and "\<And>mi :: ('k, 'v) MergeIterator. le_res (fix_loop n mi) (fix_loop m mi)"
  shows "le_res (fix_loop (Suc n) (mi :: ('k, 'v) MergeIterator)) (fix_loop (Suc m) mi)"
proof -
  have inner: "le_res
      (bindR (liftR r)
         (\<lambda>(mi2, secondValid).
            if \<not> secondValid
            then (if second mi2 = iter (small mi2) \<and> valid (big mi2)
                  then returnR (MergeIterator_swap mi2) else returnR mi2)
            else fix_loop n mi2))
      (bindR (liftR r)
         (\<lambda>(mi2, secondValid).
            if \<not> secondValid
            then (if second mi2 = iter (small mi2) \<and> valid (big mi2)
                  then returnR (MergeIterator_swap mi2) else returnR mi2)
            else fix_loop m mi2))" for r :: "(('k, 'v) MergeIterator \<times> bool) result"
  proof (rule le_res_bindR)
    show "le_res (liftR r) (liftR r)" by (rule le_res_simps)
    fix x :: "('k, 'v) MergeIterator \<times> bool"
    show "le_res
        (case x of (mi2, secondValid) \<Rightarrow>
            if \<not> secondValid
            then (if second mi2 = iter (small mi2) \<and> valid (big mi2)
                  then returnR (MergeIterator_swap mi2) else returnR mi2)
            else fix_loop n mi2)
        (case x of (mi2, secondValid) \<Rightarrow>
            if \<not> secondValid
            then (if second mi2 = iter (small mi2) \<and> valid (big mi2)
                  then returnR (MergeIterator_swap mi2) else returnR mi2)
            else fix_loop m mi2)"
      by (cases x) (simp add: assms(2))
  qed
  have tie: "le_res
     (bindR (iter_Next n (deref (heap mi) (second mi)))
        (\<lambda>obj'. bindR (liftR (refresh_second (set_heap (store (heap mi) (second mi) obj') mi)))
           (\<lambda>(mi2, secondValid).
              if \<not> secondValid
              then (if second mi2 = iter (small mi2) \<and> valid (big mi2)
                    then returnR (MergeIterator_swap mi2) else returnR mi2)
              else fix_loop n mi2)))
     (bindR (iter_Next m (deref (heap mi) (second mi)))
        (\<lambda>obj'. bindR (liftR (refresh_second (set_heap (store (heap mi) (second mi) obj') mi)))
           (\<lambda>(mi2, secondValid).
              if \<not> secondValid
              then (if second mi2 = iter (small mi2) \<and> valid (big mi2)
                    then returnR (MergeIterator_swap mi2) else returnR mi2)
              else fix_loop m mi2)))"
    by (rule le_res_bindR) (rule assms(1), rule inner)
  show ?thesis
    unfolding fix_loop.simps Let_def using tie by simp
qed

lemma Next_fuel_Suc:
  "(\<forall>mi :: ('k::linorder, 'v) MergeIterator.
      le_res (MergeIterator_Next n mi) (MergeIterator_Next (Suc n) mi)) \<and>
   (\<forall>mi :: ('k, 'v) MergeIterator. le_res (fix_loop n mi) (fix_loop (Suc n) mi))"
proof (induction n)
  case 0
  have "MergeIterator_Next 0 mi = None" "fix_loop 0 mi = None" for mi :: "('k, 'v) MergeIterator"
    by simp_all
  then show ?case by (simp only: le_res_simps) simp
next
  case (Suc n)
  have mn: "le_res (MergeIterator_Next n mi) (MergeIterator_Next (Suc n) mi)"
    for mi :: "('k, 'v) MergeIterator" using Suc by blast
  have fl: "le_res (fix_loop n mi) (fix_loop (Suc n) mi)"
    for mi :: "('k, 'v) MergeIterator" using Suc by blast
  have "le_res (MergeIterator_Next (Suc n) mi) (MergeIterator_Next (Suc (Suc n)) mi)"
    for mi :: "('k, 'v) MergeIterator"
    by (rule MergeIterator_Next_mono_aux) (rule node_next_mono_aux, rule mn, rule fix_mono_aux, rule fl)
  moreover have "le_res (fix_loop (Suc n) mi) (fix_loop (Suc (Suc n)) mi)"
    for mi :: "('k, 'v) MergeIterator"
    by (rule fix_loop_mono_aux) (rule iter_Next_mono_aux, rule mn, rule fl)
  ultimately show ?case by blast
qed

lemma fuel_mono_Next:
  assumes "n \<le> m"
  shows "le_res (MergeIterator_Next n (mi :: ('k::linorder, 'v) MergeIterator)) (MergeIterator_Next m mi)"
    and "le_res (fix_loop n mi) (fix_loop m mi)"
    and "le_res (MergeIterator_fix n mi) (MergeIterator_fix m mi)"
    and "le_res (iter_Next n (it :: ('k, 'v) Iterator)) (iter_Next m it)"
    and "le_res (node_next n nd (h :: ('k, 'v) Iterator list)) (node_next m nd h)"
proof -
  show mn: "le_res (MergeIterator_Next n mi) (MergeIterator_Next m mi)"
    for mi :: "('k, 'v) MergeIterator"
    by (rule le_res_mono_le [of "\<lambda>n. MergeIterator_Next n mi", OF _ assms])
      (rule Next_fuel_Suc [THEN conjunct1, rule_format])
  show fl: "le_res (fix_loop n mi) (fix_loop m mi)" for mi :: "('k, 'v) MergeIterator"
    by (rule le_res_mono_le [of "\<lambda>n. fix_loop n mi", OF _ assms])
      (rule Next_fuel_Suc [THEN conjunct2, rule_format])
  show "le_res (MergeIterator_fix n mi) (MergeIterator_fix m mi)"
    by (rule fix_mono_aux) (rule fl)
  show "le_res (iter_Next n it) (iter_Next m it)"
    by (rule iter_Next_mono_aux) (rule mn)
  show "le_res (node_next n nd h) (node_next m nd h)"
    by (rule node_next_mono_aux) (rule mn)
qed

lemma fuel_determined:
  assumes mono: "\<And>n m. n \<le> m \<Longrightarrow> le_res (f n) (f m)"
    and "f n = Some r" and "\<forall>m\<ge>(N::nat). f m = Some r'"
  shows "r = r'"
proof -
  from mono [of n "max n N"] assms(2) have "f (max n N) = Some r" by (auto dest: le_res_Some)
  moreover from assms(3) have "f (max n N) = Some r'" by simp
  ultimately show ?thesis by simp
qed


lemma iter_Rewind_mono_aux:
  assumes "\<And>mi :: ('k::linorder, 'v) MergeIterator.
      le_res (MergeIterator_Rewind n mi) (MergeIterator_Rewind m mi)"
  shows "le_res (iter_Rewind n (it :: ('k, 'v) Iterator)) (iter_Rewind m it)"
proof (cases it)
  case (Merge mi)
  have "le_res (bindR (MergeIterator_Rewind n mi) (\<lambda>mi'. returnR (Merge mi')))
          (bindR (MergeIterator_Rewind m mi) (\<lambda>mi'. returnR (Merge mi')))"
    by (rule le_res_bindR) (rule assms, rule le_res_simps)
  then show ?thesis by (simp add: Merge)
qed simp_all

lemma node_rewind_mono_aux:
  assumes "\<And>mi :: ('k::linorder, 'v) MergeIterator.
      le_res (MergeIterator_Rewind n mi) (MergeIterator_Rewind m mi)"
  shows "le_res (node_rewind n nd (h :: ('k, 'v) Iterator list)) (node_rewind m nd h)"
  unfolding node_rewind.simps
  by (rule le_res_bindR) (rule iter_Rewind_mono_aux, rule assms, rule le_res_simps)

lemma MergeIterator_Rewind_mono_aux:
  assumes nd: "\<And>nd (h :: ('k::linorder, 'v) Iterator list).
      le_res (node_rewind n nd h) (node_rewind m nd h)"
    and fx: "\<And>mi :: ('k, 'v) MergeIterator. le_res (MergeIterator_fix n mi) (MergeIterator_fix m mi)"
  shows "le_res (MergeIterator_Rewind (Suc n) (mi :: ('k, 'v) MergeIterator))
           (MergeIterator_Rewind (Suc m) mi)"
  unfolding MergeIterator_Rewind.simps
proof (rule le_res_bindR)
  show "le_res (node_rewind n (small mi) (heap mi)) (node_rewind m (small mi) (heap mi))"
    by (rule nd)
  fix x :: "'k node \<times> ('k, 'v) Iterator list"
  obtain s h where x: "x = (s, h)" by (cases x)
  have "le_res
      (bindR (node_rewind n (big mi) h)
         (\<lambda>(b, h'). MergeIterator_fix n (set_heap h' (set_big b (set_small s mi)))))
      (bindR (node_rewind m (big mi) h)
         (\<lambda>(b, h'). MergeIterator_fix m (set_heap h' (set_big b (set_small s mi)))))"
  proof (rule le_res_bindR)
    show "le_res (node_rewind n (big mi) h) (node_rewind m (big mi) h)" by (rule nd)
    fix y :: "'k node \<times> ('k, 'v) Iterator list"
    show "le_res
        (case y of (b, h') \<Rightarrow> MergeIterator_fix n (set_heap h' (set_big b (set_small s mi))))
        (case y of (b, h') \<Rightarrow> MergeIterator_fix m (set_heap h' (set_big b (set_small s mi))))"
      by (cases y) (simp add: fx)
  qed
  then show "le_res
      (case x of (s, h) \<Rightarrow> bindR (node_rewind n (big mi) h)
         (\<lambda>(b, h'). MergeIterator_fix n (set_heap h' (set_big b (set_small s mi)))))
      (case x of (s, h) \<Rightarrow> bindR (node_rewind m (big mi) h)
         (\<lambda>(b, h'). MergeIterator_fix m (set_heap h' (set_big b (set_small s mi)))))"
    by (simp add: x)
qed

lemma Rewind_fuel_Suc:
  "le_res (MergeIterator_Rewind n (mi :: ('k::linorder, 'v) MergeIterator))
     (MergeIterator_Rewind (Suc n) mi)"
proof (induction n arbitrary: mi)
  case 0
  have "MergeIterator_Rewind 0 mi = None" by simp
  then show ?case by (simp only: le_res_simps)
next
  case (Suc n)
  show ?case
    by (rule MergeIterator_Rewind_mono_aux)
      (rule node_rewind_mono_aux, rule Suc, rule fuel_mono_Next(3), simp)
qed

lemma fuel_mono_Rewind:
  assumes "n \<le> m"
  shows "le_res (MergeIterator_Rewind n (mi :: ('k::linorder, 'v) MergeIterator))
           (MergeIterator_Rewind m mi)"
    and "le_res (iter_Rewind n (it :: ('k, 'v) Iterator)) (iter_Rewind m it)"
proof -
  show mn: "le_res (MergeIterator_Rewind n mi) (MergeIterator_Rewind m mi)"
    for mi :: "('k, 'v) MergeIterator"
    by (rule le_res_mono_le [of "\<lambda>n. MergeIterator_Rewind n mi", OF _ assms]) (rule Rewind_fuel_Suc)
  show "le_res (iter_Rewind n it) (iter_Rewind m it)"
    by (rule iter_Rewind_mono_aux) (rule mn)
qed

lemma iter_Seek_mono_aux:
  assumes "\<And>mi :: ('k::linorder, 'v) MergeIterator.
      le_res (MergeIterator_Seek n k mi) (MergeIterator_Seek m k mi)"
  shows "le_res (iter_Seek n k (it :: ('k, 'v) Iterator)) (iter_Seek m k it)"
proof (cases it)
  case (Merge mi)
  have "le_res (bindR (MergeIterator_Seek n k mi) (\<lambda>mi'. returnR (Merge mi')))
          (bindR (MergeIterator_Seek m k mi) (\<lambda>mi'. returnR (Merge mi')))"
    by (rule le_res_bindR) (rule assms, rule le_res_simps)
  then show ?thesis by (simp add: Merge)
qed simp_all

lemma node_seek_mono_aux:
  assumes "\<And>mi :: ('k::linorder, 'v) MergeIterator.
      le_res (MergeIterator_Seek n k mi) (MergeIterator_Seek m k mi)"
  shows "le_res (node_seek n k nd (h :: ('k, 'v) Iterator list)) (node_seek m k nd h)"
  unfolding node_seek.simps
  by (rule le_res_bindR) (rule iter_Seek_mono_aux, rule assms, rule le_res_simps)

lemma MergeIterator_Seek_mono_aux:
  assumes nd: "\<And>nd (h :: ('k::linorder, 'v) Iterator list).
      le_res (node_seek n k nd h) (node_seek m k nd h)"
    and fx: "\<And>mi :: ('k, 'v) MergeIterator. le_res (MergeIterator_fix n mi) (MergeIterator_fix m mi)"
  shows "le_res (MergeIterator_Seek (Suc n) k (mi :: ('k, 'v) MergeIterator))
           (MergeIterator_Seek (Suc m) k mi)"
  unfolding MergeIterator_Seek.simps
proof (rule le_res_bindR)
  show "le_res (node_seek n k (small mi) (heap mi)) (node_seek m k (small mi) (heap mi))"
    by (rule nd)
  fix x :: "'k node \<times> ('k, 'v) Iterator list"
  obtain s h where x: "x = (s, h)" by (cases x)
  have "le_res
      (bindR (node_seek n k (big mi) h)
         (\<lambda>(b, h'). MergeIterator_fix n (set_heap h' (set_big b (set_small s mi)))))
      (bindR (node_seek m k (big mi) h)
         (\<lambda>(b, h'). MergeIterator_fix m (set_heap h' (set_big b (set_small s mi)))))"
  proof (rule le_res_bindR)
    show "le_res (node_seek n k (big mi) h) (node_seek m k (big mi) h)" by (rule nd)
    fix y :: "'k node \<times> ('k, 'v) Iterator list"
    show "le_res
        (case y of (b, h') \<Rightarrow> MergeIterator_fix n (set_heap h' (set_big b (set_small s mi))))
        (case y of (b, h') \<Rightarrow> MergeIterator_fix m (set_heap h' (set_big b (set_small s mi))))"
      by (cases y) (simp add: fx)
  qed
  then show "le_res
      (case x of (s, h) \<Rightarrow> bindR (node_seek n k (big mi) h)
         (\<lambda>(b, h'). MergeIterator_fix n (set_heap h' (set_big b (set_small s mi)))))
      (case x of (s, h) \<Rightarrow> bindR (node_seek m k (big mi) h)
         (\<lambda>(b, h'). MergeIterator_fix m (set_heap h' (set_big b (set_small s mi)))))"
    by (simp add: x)
qed

lemma Seek_fuel_Suc:
  "le_res (MergeIterator_Seek n k (mi :: ('k::linorder, 'v) MergeIterator))
     (MergeIterator_Seek (Suc n) k mi)"
proof (induction n arbitrary: mi)
  case 0
  have "MergeIterator_Seek 0 k mi = None" by simp
  then show ?case by (simp only: le_res_simps)
next
  case (Suc n)
  show ?case
    by (rule MergeIterator_Seek_mono_aux)
      (rule node_seek_mono_aux, rule Suc, rule fuel_mono_Next(3), simp)
qed

lemma fuel_mono_Seek:
  assumes "n \<le> m"
  shows "le_res (MergeIterator_Seek n k (mi :: ('k::linorder, 'v) MergeIterator))
           (MergeIterator_Seek m k mi)"
    and "le_res (iter_Seek n k (it :: ('k, 'v) Iterator)) (iter_Seek m k it)"
proof -
  show mn: "le_res (MergeIterator_Seek n k mi) (MergeIterator_Seek m k mi)"
    for mi :: "('k, 'v) MergeIterator"
    by (rule le_res_mono_le [of "\<lambda>n. MergeIterator_Seek n k mi", OF _ assms]) (rule Seek_fuel_Suc)
  show "le_res (iter_Seek n k it) (iter_Seek m k it)"
    by (rule iter_Seek_mono_aux) (rule mn)
qed

lemma collect_fuel_Suc:
  "le_res (collect n (it :: ('k::linorder, 'v) Iterator)) (collect (Suc n) it)"
proof (induction n arbitrary: it)
  case 0
  have "collect 0 it = None" by simp
  then show ?case by (simp only: le_res_simps)
next
  case (Suc n)
  define G :: "('k option \<Rightarrow> 'v option \<Rightarrow> ('k option \<times> 'v option) list result option) \<Rightarrow>
      ('k option \<times> 'v option) list result option"
    where "G f = bindR (liftR (iter_Valid it))
       (\<lambda>v. if \<not> v then returnR []
            else bindR (liftR (iter_Key it)) (\<lambda>k. bindR (liftR (iter_Value it)) (\<lambda>x. f k x)))" for f
  have c: "collect (Suc j) it =
      G (\<lambda>k x. bindR (iter_Next j it) (\<lambda>it'. bindR (collect j it') (\<lambda>r. returnR ((k, x) # r))))"
    for j unfolding G_def by (rule collect.simps(2))
  have Gm: "le_res (G f) (G g)" if "\<And>k x. le_res (f k x) (g k x)" for f g
    unfolding G_def by (auto intro!: le_res_bindR that)
  have nx: "le_res (iter_Next n it) (iter_Next (Suc n) it)" by (rule fuel_mono_Next(4)) simp
  have inner: "le_res
      (bindR (iter_Next n it) (\<lambda>it'. bindR (collect n it') (\<lambda>r. returnR ((k, x) # r))))
      (bindR (iter_Next (Suc n) it) (\<lambda>it'. bindR (collect (Suc n) it') (\<lambda>r. returnR ((k, x) # r))))"
    for k x
    by (rule le_res_bindR, rule nx, rule le_res_bindR, rule Suc, rule le_res_simps)
  show ?case unfolding c [of n] c [of "Suc n"] by (rule Gm) (rule inner)
qed

lemma fuel_mono_collect:
  "n \<le> m \<Longrightarrow> le_res (collect n (it :: ('k::linorder, 'v) Iterator)) (collect m it)"
  by (rule le_res_mono_le [of "\<lambda>n. collect n it"]) (rule collect_fuel_Suc)

lemma fuel_mono_traverse:
  assumes "n \<le> m"
  shows "le_res (traverse n (iters :: ('k::linorder, 'v) Iterator list) rv) (traverse m iters rv)"
  unfolding traverse_def
  by (rule le_res_bindR) (rule fuel_mono_Rewind(2) [OF assms], rule fuel_mono_collect [OF assms])

lemma traverse_determined:
  assumes "traverse n (iters :: ('k::linorder, 'v) Iterator list) rv = Some r"
    and "\<forall>m\<ge>N. traverse m iters rv = Some r'"
  shows "r = r'"
  by (rule fuel_determined [of "\<lambda>n. traverse n iters rv", OF _ assms]) (rule fuel_mono_traverse)


section \<open>The claims on the traversal\<close>

text \<open>
  C1: for every list of sources, each sorted in the direction of the traversal by the
  comparator, whatever \<open>Rewind\<close> followed by \<open>Next\<close> while \<open>Valid\<close> returns on the tree
  that \<open>NewMergeIterator\<close> builds is a sequence whose keys are non-decreasing in forward
  mode and non-increasing in reverse mode; for a non-empty list the traversal does return
  once it has enough fuel, and for the empty list it panics on nil.
\<close>

theorem traversal_globally_sorted:
  assumes "\<forall>s\<in>set srcs. source_sorted rv s"
  shows "(\<forall>n ys. traverse n (map Leaf srcs) rv = Some (Inr ys) \<longrightarrow>
            sorted_wrt (key_le rv) (map fst ys)) \<and>
         (srcs \<noteq> [] \<longrightarrow> (\<exists>N ys. \<forall>n\<ge>N. traverse n (map Leaf srcs) rv = Some (Inr ys))) \<and>
         (srcs = [] \<longrightarrow> (\<forall>n. traverse n (map Leaf srcs) rv = Some (Inl NilPointerDereference)))"
proof (cases "srcs = []")
  case True
  then have "traverse n (map Leaf srcs) rv = Some (Inl NilPointerDereference)" for n
    by (simp add: traverse_def NewMergeIterator_0)
  then show ?thesis using True by simp
next
  case False
  from traverse_sorted_enough_fuel [OF False assms] obtain N ys0 where
    run: "\<forall>n\<ge>N. traverse n (map Leaf srcs) rv = Some (Inr ys0)"
    and srt: "sorted_wrt (key_le rv) (map fst ys0)" by blast
  have "sorted_wrt (key_le rv) (map fst ys)" if "traverse n (map Leaf srcs) rv = Some (Inr ys)"
    for n ys
  proof -
    from traverse_determined [OF that run] have "ys = ys0" by simp
    with srt show ?thesis by simp
  qed
  with run False show ?thesis by blast
qed

text \<open>
  C2: for every list of sources, each strictly sorted in the direction of the traversal,
  and every key \<open>k\<close> that some source holds, the traversal of the tree that
  \<open>NewMergeIterator\<close> builds returns once it has enough fuel, and what it returns has
  exactly one entry with key \<open>k\<close>, whose value is the value of \<open>k\<close> in the first source
  of the input list that holds \<open>k\<close>, whatever the depth of the tree.
\<close>

theorem duplicates_resolved_by_input_order:
  assumes "\<forall>s\<in>set srcs. source_strictly_sorted rv s"
    and "i < length srcs" and "(k, v) \<in> set (entries (srcs ! i))"
    and "\<forall>j<i. k \<notin> fst ` set (entries (srcs ! j))"
  shows "(\<forall>n ys. traverse n (map Leaf srcs) rv = Some (Inr ys) \<longrightarrow>
            filter (\<lambda>e. fst e = Some k) ys = [(Some k, Some v)]) \<and>
         (\<exists>N ys. \<forall>n\<ge>N. traverse n (map Leaf srcs) rv = Some (Inr ys))"
proof -
  from traverse_precedence_enough_fuel [OF assms] obtain N ys0 where
    run: "\<forall>n\<ge>N. traverse n (map Leaf srcs) rv = Some (Inr ys0)"
    and one: "filter (\<lambda>e. fst e = Some k) ys0 = [(Some k, Some v)]" by blast
  have "filter (\<lambda>e. fst e = Some k) ys = [(Some k, Some v)]"
    if "traverse n (map Leaf srcs) rv = Some (Inr ys)" for n ys
  proof -
    from traverse_determined [OF that run] have "ys = ys0" by simp
    with one show ?thesis by simp
  qed
  with run show ?thesis by blast
qed

lemma fix_ready_no_panic:
  assumes "fix_ready (mi :: ('k::linorder, 'v) MergeIterator)"
  shows "MergeIterator_fix n mi \<noteq> Some (Inl p)"
proof
  assume a: "MergeIterator_fix n mi = Some (Inl p)"
  have H: "next_ok c" if "size c = size (deref (heap mi) 2)" "wf_iter c" "positioned c"
    "remaining c \<noteq> []" for c :: "('k, 'v) Iterator"
    using that by (simp add: iter_Next_ok)
  from fix_ok [OF H assms refl] obtain N mi' where
    run: "\<forall>m\<ge>N. MergeIterator_fix m mi = Some (Inr mi')" by blast
  have "Inl p = Inr mi'"
    by (rule fuel_determined [of "\<lambda>n. MergeIterator_fix n mi", OF _ a run])
      (rule fuel_mono_Next(3))
  then show False by simp
qed

section \<open>The assertion on second\<close>

text \<open>
  C7: when \<open>second\<close> is neither \<open>small.iter\<close> nor \<open>big.iter\<close>, the if-chain after
  \<open>mi.second.Next()\<close> panics with \<open>mi.second invalid\<close>, so that \<open>fix\<close> on equal keys
  never returns normally: it ends in the panic as soon as \<open>mi.second.Next()\<close> has
  returned. When \<open>second\<close> is \<open>small.iter\<close> or \<open>big.iter\<close>, the if-chain never raises
  that panic; a well-formed tree, as \<open>NewMergeIterator\<close> builds it, has \<open>second\<close> equal
  to one of the two, and in the states in which the operations call \<open>fix\<close> on such a
  tree, \<open>fix\<close> panics for no amount of fuel.
\<close>

theorem second_mismatch_panics:
  "(second mi \<noteq> iter (small mi) \<and> second mi \<noteq> iter (big mi) \<longrightarrow>
      refresh_second mi = Inl (Panic ''mi.second invalid'')) \<and>
   (second mi = iter (small mi) \<or> second mi = iter (big mi) \<longrightarrow>
      (\<forall>msg. refresh_second mi \<noteq> Inl (Panic msg))) \<and>
   (valid (small mi) \<and> valid (big mi) \<and> CompareKeys (key (small mi)) (key (big mi)) = 0 \<and>
    second mi \<noteq> iter (small mi) \<and> second mi \<noteq> iter (big mi) \<longrightarrow>
      MergeIterator_fix (Suc n) mi =
        bindR (iter_Next n (deref (heap mi) (second mi)))
          (\<lambda>obj'. Some (Inl (Panic ''mi.second invalid''))) \<and>
      (\<forall>m mi'. MergeIterator_fix m mi \<noteq> Some (Inr mi'))) \<and>
   (wf_iter (Merge mi) \<longrightarrow> second mi = iter (small mi) \<or> second mi = iter (big mi)) \<and>
   (fix_ready mi \<longrightarrow> (\<forall>m p. MergeIterator_fix m mi \<noteq> Some (Inl p)))"
proof -
  have "second mi = iter (small mi) \<or> second mi = iter (big mi)" if "wf_iter (Merge mi)"
    using that by auto
  moreover have "\<forall>m p. MergeIterator_fix m mi \<noteq> Some (Inl p)" if "fix_ready mi"
    using fix_ready_no_panic [OF that] by blast
  ultimately show ?thesis using second_mismatch_chain [of mi n] by blast
qed

section \<open>The loop of fix ends\<close>

lemma iter_Next_not_Nil: "iter_Next n c = Some (Inr c') \<Longrightarrow> c \<noteq> Nil \<and> c' \<noteq> Nil"
  by (cases c) (auto simp: bindR_eq_Inr)

lemma iter_Next_more_fuel: "iter_Next n c = Some r \<Longrightarrow> n \<le> m \<Longrightarrow> iter_Next m c = Some r"
  using fuel_mono_Next(4) [of n m c] by (auto dest: le_res_Some)

lemma iter_Next_determined:
  assumes "iter_Next n c = Some r" "iter_Next m c = Some r'"
  shows "r = r'"
  using iter_Next_more_fuel [OF assms(1), of "max n m"] iter_Next_more_fuel [OF assms(2), of "max n m"]
  by simp

lemma store_deref [simp]: "store h a (deref h a) = h"
  by (simp add: store_def deref_def)

lemma store_store [simp]: "store (store h a x) a y = store h a y"
  by (simp add: store_def)

lemma advanced_to_refl: "advanced_to mi (deref (heap mi) (second mi)) mi"
  by (simp add: advanced_to_def)

lemma advanced_to_swap: "advanced_to mi c mi' \<Longrightarrow> advanced_to mi c (MergeIterator_swap mi')"
  by (auto simp: advanced_to_def MergeIterator_swap_def)

lemma advanced_to_trans:
  "advanced_to mi c1 mi2 \<Longrightarrow> advanced_to mi2 c' mi' \<Longrightarrow> advanced_to mi c' mi'"
  by (auto simp: advanced_to_def)

lemma advances_Next:
  "advances k c \<Longrightarrow>
   \<exists>n c1. iter_Next n c = Some (Inr c1) \<and>
     (case k of 0 \<Rightarrow> iter_Valid c1 = Inr False | Suc k' \<Rightarrow> iter_Valid c1 = Inr True \<and> advances k' c1)"
  by (erule advances.cases) auto

lemma fix_loop_no_tie:
  assumes "\<not> (valid (small mi) \<and> key (small mi) = key (big mi))"
  shows "\<exists>mi'. (mi' = mi \<or> mi' = MergeIterator_swap mi) \<and> (\<forall>n. fix_loop (Suc n) mi = Some (Inr mi'))"
proof (cases "valid (small mi)")
  case True
  with assms show ?thesis by (intro fix_loop_unequal) simp_all
next
  case False
  then show ?thesis by (simp add: fix_loop_exhausted)
qed

lemma fix_loop_foreign:
  assumes "valid (small mi)" "key (small mi) = key (big mi)"
    and "second mi \<noteq> iter (small mi)" "second mi \<noteq> iter (big mi)"
    and "iter_Next n (deref (heap mi) (second mi)) = Some (Inr c1)"
  shows "fix_loop (Suc n) mi = Some (Inl (Panic ''mi.second invalid''))"
proof -
  have r: "refresh_second (set_heap h mi) = Inl (Panic ''mi.second invalid'')" for h
    using assms(3,4) by (simp add: refresh_second_def)
  show ?thesis using assms(1,2,5) by (simp add: Let_def r liftR_def CompareKeys_eq_iff)
qed

lemma fix_loop_turn:
  assumes t: "valid (small mi)" "key (small mi) = key (big mi)"
    and s: "second mi = iter (small mi) \<or> second mi = iter (big mi)"
    and nx: "iter_Next n0 (deref (heap mi) (second mi)) = Some (Inr c1)"
    and v: "iter_Valid c1 = Inr v"
  shows "\<exists>mi2. advanced_to mi c1 mi2 \<and> deref (heap mi2) (second mi2) = c1 \<and>
           iter (small mi2) = iter (small mi) \<and> iter (big mi2) = iter (big mi) \<and>
           (\<forall>n. iter_Next n (deref (heap mi) (second mi)) = Some (Inr c1) \<longrightarrow>
              fix_loop (Suc n) mi =
                (if v then fix_loop n mi2
                 else Some (Inr (if second mi2 = iter (small mi2) \<and> valid (big mi2)
                                 then MergeIterator_swap mi2 else mi2))))"
proof -
  from iter_Next_not_Nil [OF nx] have nn: "deref (heap mi) (second mi) \<noteq> Nil" by simp
  define mi1 where "mi1 = set_heap (store (heap mi) (second mi) c1) mi"
  have d1: "deref (heap mi1) (second mi1) = c1"
    using nn by (simp add: mi1_def deref_store_same)
  show ?thesis
  proof (cases "second mi = iter (small mi)")
    case a: True
    from node_setKey_Valid [of "heap mi1" "small mi1" v] d1 v a obtain s' where
      sk: "node_setKey (small mi1) (heap mi1) = Inr s'" and i: "iter s' = iter (small mi)"
      and vs: "valid s' = v"
      by (auto simp: mi1_def)
    define mi2 where "mi2 = set_small s' mi1"
    have rs: "refresh_second (set_heap (store (heap mi) (second mi) c1) mi) = Inr (mi2, v)"
      using a sk vs by (simp add: refresh_second_def mi1_def [symmetric] mi2_def) (simp add: mi1_def)
    have step: "fix_loop (Suc n) mi =
        (if v then fix_loop n mi2
         else Some (Inr (if second mi2 = iter (small mi2) \<and> valid (big mi2)
                         then MergeIterator_swap mi2 else mi2)))"
      if "iter_Next n (deref (heap mi) (second mi)) = Some (Inr c1)" for n
      using fix_loop_tie_step [OF t that rs] by (simp add: returnR_def)
    have "advanced_to mi c1 mi2" using i by (simp add: advanced_to_def mi2_def mi1_def)
    moreover have "deref (heap mi2) (second mi2) = c1" using d1 by (simp add: mi2_def)
    moreover have "iter (small mi2) = iter (small mi)" "iter (big mi2) = iter (big mi)"
      using i by (simp_all add: mi2_def mi1_def)
    ultimately show ?thesis using step by blast
  next
    case ns: False
    with s have a: "second mi = iter (big mi)" by simp
    from node_setKey_Valid [of "heap mi1" "big mi1" v] d1 v a obtain b' where
      sk: "node_setKey (big mi1) (heap mi1) = Inr b'" and i: "iter b' = iter (big mi)"
      and vs: "valid b' = v"
      by (auto simp: mi1_def)
    define mi2 where "mi2 = set_big b' mi1"
    have rs: "refresh_second (set_heap (store (heap mi) (second mi) c1) mi) = Inr (mi2, v)"
      using a ns sk vs by (simp add: refresh_second_def mi1_def [symmetric] mi2_def) (simp add: mi1_def)
    have step: "fix_loop (Suc n) mi =
        (if v then fix_loop n mi2
         else Some (Inr (if second mi2 = iter (small mi2) \<and> valid (big mi2)
                         then MergeIterator_swap mi2 else mi2)))"
      if "iter_Next n (deref (heap mi) (second mi)) = Some (Inr c1)" for n
      using fix_loop_tie_step [OF t that rs] by (simp add: returnR_def)
    have "advanced_to mi c1 mi2" using i by (simp add: advanced_to_def mi2_def mi1_def)
    moreover have "deref (heap mi2) (second mi2) = c1" using d1 by (simp add: mi2_def)
    moreover have "iter (small mi2) = iter (small mi)" "iter (big mi2) = iter (big mi)"
      using i by (simp_all add: mi2_def mi1_def)
    ultimately show ?thesis using step by blast
  qed
qed

lemma fix_loop_advances:
  "advances k (deref (heap mi) (second mi)) \<Longrightarrow>
   \<exists>N r. (\<forall>n\<ge>N. fix_loop n mi = Some r) \<and>
     (case r of
        Inl p \<Rightarrow> p = Panic ''mi.second invalid'' \<and>
                 second mi \<noteq> iter (small mi) \<and> second mi \<noteq> iter (big mi)
      | Inr mi' \<Rightarrow> \<exists>j c'. j \<le> Suc k \<and> Next_times j (deref (heap mi) (second mi)) c' \<and>
                     advanced_to mi c' mi')"
proof (induction k arbitrary: mi)
  case 0
  let ?c = "deref (heap mi) (second mi)"
  from advances_Next [OF 0] obtain n0 c1 where
    nx: "iter_Next n0 ?c = Some (Inr c1)" and v: "iter_Valid c1 = Inr False" by auto
  have nt: "Next_times (Suc 0) ?c c1" by (rule Next_times.one_more [OF nx]) (rule Next_times.no_call)
  consider (no_tie) "\<not> (valid (small mi) \<and> key (small mi) = key (big mi))"
    | (foreign) "valid (small mi)" "key (small mi) = key (big mi)"
        "second mi \<noteq> iter (small mi)" "second mi \<noteq> iter (big mi)"
    | (tie) "valid (small mi)" "key (small mi) = key (big mi)"
        "second mi = iter (small mi) \<or> second mi = iter (big mi)"
    by blast
  then show ?case
  proof cases
    case no_tie
    from fix_loop_no_tie [OF this] obtain mi' where
      m: "mi' = mi \<or> mi' = MergeIterator_swap mi" and r: "\<forall>n. fix_loop (Suc n) mi = Some (Inr mi')"
      by blast
    from r have "\<forall>n\<ge>Suc 0. fix_loop n mi = Some (Inr mi')" by (intro all_ge_Suc) blast
    moreover from m have "advanced_to mi ?c mi'"
      by (auto intro: advanced_to_refl advanced_to_swap)
    ultimately show ?thesis using Next_times.no_call [of ?c]
      by (intro exI [of _ "Suc 0"] exI [of _ "Inr mi'"]) (auto intro!: exI [of _ 0])
  next
    case foreign
    have "fix_loop (Suc m) mi = Some (Inl (Panic ''mi.second invalid''))" if "n0 \<le> m" for m
      by (rule fix_loop_foreign [OF foreign iter_Next_more_fuel [OF nx that]])
    then have "\<forall>n\<ge>Suc n0. fix_loop n mi = Some (Inl (Panic ''mi.second invalid''))"
      by (intro all_ge_Suc)
    with foreign show ?thesis
      by (intro exI [of _ "Suc n0"] exI [of _ "Inl (Panic ''mi.second invalid'')"]) simp
  next
    case tie
    from fix_loop_turn [OF tie nx v] obtain mi2 where
      a: "advanced_to mi c1 mi2"
      and st: "\<forall>n. iter_Next n ?c = Some (Inr c1) \<longrightarrow>
                fix_loop (Suc n) mi = Some (Inr (if second mi2 = iter (small mi2) \<and> valid (big mi2)
                                 then MergeIterator_swap mi2 else mi2))"
      by auto
    define mi' where "mi' = (if second mi2 = iter (small mi2) \<and> valid (big mi2)
                                 then MergeIterator_swap mi2 else mi2)"
    have "\<forall>n\<ge>Suc n0. fix_loop n mi = Some (Inr mi')"
      unfolding mi'_def using st iter_Next_more_fuel [OF nx] by (intro all_ge_Suc) blast
    moreover from a have "advanced_to mi c1 mi'" by (simp add: mi'_def advanced_to_swap)
    ultimately show ?thesis using nt
      by (intro exI [of _ "Suc n0"] exI [of _ "Inr mi'"]) (auto intro!: exI [of _ "Suc 0"])
  qed
next
  case (Suc k)
  let ?c = "deref (heap mi) (second mi)"
  from advances_Next [OF Suc.prems] obtain n0 c1 where
    nx: "iter_Next n0 ?c = Some (Inr c1)" and v: "iter_Valid c1 = Inr True"
    and adv: "advances k c1" by auto
  consider (no_tie) "\<not> (valid (small mi) \<and> key (small mi) = key (big mi))"
    | (foreign) "valid (small mi)" "key (small mi) = key (big mi)"
        "second mi \<noteq> iter (small mi)" "second mi \<noteq> iter (big mi)"
    | (tie) "valid (small mi)" "key (small mi) = key (big mi)"
        "second mi = iter (small mi) \<or> second mi = iter (big mi)"
    by blast
  then show ?case
  proof cases
    case no_tie
    from fix_loop_no_tie [OF this] obtain mi' where
      m: "mi' = mi \<or> mi' = MergeIterator_swap mi" and r: "\<forall>n. fix_loop (Suc n) mi = Some (Inr mi')"
      by blast
    from r have "\<forall>n\<ge>Suc 0. fix_loop n mi = Some (Inr mi')" by (intro all_ge_Suc) blast
    moreover from m have "advanced_to mi ?c mi'"
      by (auto intro: advanced_to_refl advanced_to_swap)
    ultimately show ?thesis using Next_times.no_call [of ?c]
      by (intro exI [of _ "Suc 0"] exI [of _ "Inr mi'"]) (auto intro!: exI [of _ 0])
  next
    case foreign
    have "fix_loop (Suc m) mi = Some (Inl (Panic ''mi.second invalid''))" if "n0 \<le> m" for m
      by (rule fix_loop_foreign [OF foreign iter_Next_more_fuel [OF nx that]])
    then have "\<forall>n\<ge>Suc n0. fix_loop n mi = Some (Inl (Panic ''mi.second invalid''))"
      by (intro all_ge_Suc)
    with foreign show ?thesis
      by (intro exI [of _ "Suc n0"] exI [of _ "Inl (Panic ''mi.second invalid'')"]) simp
  next
    case tie
    from fix_loop_turn [OF tie nx v] obtain mi2 where
      a: "advanced_to mi c1 mi2" and d: "deref (heap mi2) (second mi2) = c1"
      and i: "iter (small mi2) = iter (small mi)" "iter (big mi2) = iter (big mi)"
      and st: "\<forall>n. iter_Next n ?c = Some (Inr c1) \<longrightarrow> fix_loop (Suc n) mi = fix_loop n mi2"
      by auto
    from a have s2: "second mi2 = second mi" by (simp add: advanced_to_def)
    from Suc.IH [of mi2] adv d obtain N2 r where
      run: "\<forall>n\<ge>N2. fix_loop n mi2 = Some r"
      and res: "case r of
        Inl p \<Rightarrow> p = Panic ''mi.second invalid'' \<and>
                 second mi2 \<noteq> iter (small mi2) \<and> second mi2 \<noteq> iter (big mi2)
      | Inr mi' \<Rightarrow> \<exists>j c'. j \<le> Suc k \<and> Next_times j c1 c' \<and> advanced_to mi2 c' mi'"
      by auto
    have "fix_loop (Suc n) mi = Some r" if "max n0 N2 \<le> n" for n
    proof -
      from that have "iter_Next n ?c = Some (Inr c1)" by (intro iter_Next_more_fuel [OF nx]) simp
      with st have "fix_loop (Suc n) mi = fix_loop n mi2" by blast
      with run that show ?thesis by simp
    qed
    then have all: "\<forall>n\<ge>Suc (max n0 N2). fix_loop n mi = Some r" by (intro all_ge_Suc)
    show ?thesis
    proof (cases r)
      case (Inl p)
      with res i s2 tie(3) show ?thesis by auto
    next
      case (Inr mi')
      with res obtain j c' where j: "j \<le> Suc k" and nt: "Next_times j c1 c'"
        and a2: "advanced_to mi2 c' mi'" by auto
      from Next_times.one_more [OF nx nt] have "Next_times (Suc j) ?c c'" .
      moreover from advanced_to_trans [OF a a2] have "advanced_to mi c' mi'" .
      ultimately show ?thesis using all j Inr
        by (intro exI [of _ "Suc (max n0 N2)"] exI [of _ "Inr mi'"]) (auto intro!: exI [of _ "Suc j"])
    qed
  qed
qed

text \<open>
  Every valid child of a well-formed, positioned tree advances, with as many positions
  to go as it has entries left to yield after the current one.
\<close>

lemma positioned_advances:
  "wf_iter (c :: ('k::linorder, 'v) Iterator) \<Longrightarrow> positioned c \<Longrightarrow> remaining c \<noteq> [] \<Longrightarrow>
   advances (length (remaining c) - 1) c"
proof (induction "length (remaining c)" arbitrary: c rule: less_induct)
  case less
  from iter_Next_ok [OF less.prems] obtain N c' where
    nx: "\<forall>n\<ge>N. iter_Next n c = Some (Inr c')" and wf: "wf_iter c'"
    and p: "positioned c'" and rem: "remaining c' = tl (remaining c)"
    by (auto simp: next_ok_def)
  from nx have nx': "iter_Next N c = Some (Inr c')" by simp
  note hd = positioned_head [OF wf p]
  show ?case
  proof (cases "remaining c' = []")
    case True
    with rem less.prems(3) have "length (remaining c) - 1 = 0" by (cases "remaining c") simp_all
    moreover from hd True have "iter_Valid c' = Inr False" by simp
    ultimately show ?thesis using advances.last_call [OF nx'] by simp
  next
    case False
    from rem less.prems(3) have l: "length (remaining c') < length (remaining c)" by simp
    from less.hyps [OF l wf p False] have "advances (length (remaining c') - 1) c'" .
    moreover from hd False have "iter_Valid c' = Inr True" by simp
    ultimately have "advances (Suc (length (remaining c') - 1)) c" by (intro advances.next_call [OF nx'])
    moreover have "Suc (length (remaining c') - 1) = length (remaining c) - 1"
    proof -
      from rem have "length (remaining c') = length (remaining c) - 1" by simp
      moreover from False have "0 < length (remaining c')" by simp
      ultimately show ?thesis by arith
    qed
    ultimately show ?thesis by simp
  qed
qed

text \<open>
  C6: in every state in which the child that \<open>second\<close> designates advances on each
  \<open>Next\<close> and is invalid after \<open>k + 1\<close> of them, the loop of \<open>fix\<close> ends, and each
  turn of its equal-key branch advances that child by exactly one position.

  \<^item> \<open>fix\<close> ends: every large enough fuel gives the same result \<open>r\<close>. It is the panic
    \<open>mi.second invalid\<close> only when \<open>second\<close> is the iterator of neither node;
    otherwise \<open>fix\<close> returns a state whose store is the one it started from with
    \<open>second\<close> advanced by \<open>j\<close> calls of \<open>Next\<close>, \<open>j \<le> k + 1\<close>, and nothing else
    changed.
  \<^item> One turn of the loop (\<open>fix_loop\<close>) in the equal-key branch: \<open>Next\<close> on \<open>second\<close>
    returns \<open>c1\<close>, which has one position less to go than the child had. When \<open>second\<close>
    is the iterator of neither node the turn panics. Otherwise the turn leaves a state
    \<open>mi2\<close> that is the state it started from with \<open>c1\<close> in place of the child, and
    either \<open>c1\<close> is invalid and the loop returns \<open>mi2\<close> (\<open>k = 0\<close>), or the loop goes
    on from \<open>mi2\<close> with one unit of fuel less, where \<open>k - 1\<close> positions remain.
\<close>

theorem fix_terminates:
  assumes "advances k (deref (heap mi) (second mi))"
  shows
    "(\<exists>N r. (\<forall>n\<ge>N. MergeIterator_fix n mi = Some r) \<and>
        (case r of
           Inl p \<Rightarrow> p = Panic ''mi.second invalid'' \<and>
                    second mi \<noteq> iter (small mi) \<and> second mi \<noteq> iter (big mi)
         | Inr mi' \<Rightarrow> \<exists>j c'. j \<le> Suc k \<and> Next_times j (deref (heap mi) (second mi)) c' \<and>
                        advanced_to mi c' mi')) \<and>
     (valid (small mi) \<and> CompareKeys (key (small mi)) (key (big mi)) = 0 \<longrightarrow>
        (\<exists>c1. Next_times (Suc 0) (deref (heap mi) (second mi)) c1 \<and>
           (case k of 0 \<Rightarrow> iter_Valid c1 = Inr False
                    | Suc k' \<Rightarrow> iter_Valid c1 = Inr True \<and> advances k' c1) \<and>
           (second mi \<noteq> iter (small mi) \<and> second mi \<noteq> iter (big mi) \<and>
              (\<forall>n. iter_Next n (deref (heap mi) (second mi)) = Some (Inr c1) \<longrightarrow>
                 fix_loop (Suc n) mi = Some (Inl (Panic ''mi.second invalid''))) \<or>
            (\<exists>mi2. advanced_to mi c1 mi2 \<and> deref (heap mi2) (second mi2) = c1 \<and>
               (\<forall>n. iter_Next n (deref (heap mi) (second mi)) = Some (Inr c1) \<longrightarrow>
                  (case k of 0 \<Rightarrow> fix_loop (Suc n) mi = Some (Inr mi2)
                           | Suc k' \<Rightarrow> fix_loop (Suc n) mi = fix_loop n mi2))))))"
proof (intro conjI impI)
  let ?c = "deref (heap mi) (second mi)"
  show "\<exists>N r. (\<forall>n\<ge>N. MergeIterator_fix n mi = Some r) \<and>
        (case r of
           Inl p \<Rightarrow> p = Panic ''mi.second invalid'' \<and>
                    second mi \<noteq> iter (small mi) \<and> second mi \<noteq> iter (big mi)
         | Inr mi' \<Rightarrow> \<exists>j c'. j \<le> Suc k \<and> Next_times j ?c c' \<and> advanced_to mi c' mi')"
  proof (cases "valid (big mi)")
    case True
    then have "MergeIterator_fix n mi = fix_loop n mi" for n by (simp add: MergeIterator_fix.simps)
    with fix_loop_advances [OF assms] show ?thesis by simp
  next
    case False
    then have "\<forall>n\<ge>0. MergeIterator_fix n mi = Some (Inr mi)"
      by (simp add: MergeIterator_fix.simps returnR_def)
    moreover have "Next_times 0 ?c ?c" by (rule Next_times.no_call)
    ultimately show ?thesis using advanced_to_refl [of mi]
      by (intro exI [of _ 0] exI [of _ "Inr mi"]) (auto intro!: exI [of _ 0])
  qed
next
  let ?c = "deref (heap mi) (second mi)"
  assume tie: "valid (small mi) \<and> CompareKeys (key (small mi)) (key (big mi)) = 0"
  then have t: "valid (small mi)" "key (small mi) = key (big mi)"
    by (simp_all add: CompareKeys_eq_iff)
  from advances_Next [OF assms] obtain n0 c1 where
    nx: "iter_Next n0 ?c = Some (Inr c1)"
    and pos: "case k of 0 \<Rightarrow> iter_Valid c1 = Inr False
                      | Suc k' \<Rightarrow> iter_Valid c1 = Inr True \<and> advances k' c1" by blast
  have nt: "Next_times (Suc 0) ?c c1" using Next_times.one_more [OF nx Next_times.no_call] by simp
  have "second mi \<noteq> iter (small mi) \<and> second mi \<noteq> iter (big mi) \<and>
              (\<forall>n. iter_Next n ?c = Some (Inr c1) \<longrightarrow>
                 fix_loop (Suc n) mi = Some (Inl (Panic ''mi.second invalid''))) \<or>
            (\<exists>mi2. advanced_to mi c1 mi2 \<and> deref (heap mi2) (second mi2) = c1 \<and>
               (\<forall>n. iter_Next n ?c = Some (Inr c1) \<longrightarrow>
                  (case k of 0 \<Rightarrow> fix_loop (Suc n) mi = Some (Inr mi2)
                           | Suc k' \<Rightarrow> fix_loop (Suc n) mi = fix_loop n mi2)))"
  proof (cases "second mi = iter (small mi) \<or> second mi = iter (big mi)")
    case False
    with fix_loop_foreign [OF t] show ?thesis by blast
  next
    case s: True
    show ?thesis
    proof (cases k)
      case 0
      with pos have v: "iter_Valid c1 = Inr False" by simp
      from fix_loop_turn [OF t s nx v] obtain mi2 where
        a: "advanced_to mi c1 mi2" and d: "deref (heap mi2) (second mi2) = c1"
        and st: "\<forall>n. iter_Next n ?c = Some (Inr c1) \<longrightarrow>
                fix_loop (Suc n) mi = Some (Inr (if second mi2 = iter (small mi2) \<and> valid (big mi2)
                                 then MergeIterator_swap mi2 else mi2))"
        by auto
      define mi' where "mi' = (if second mi2 = iter (small mi2) \<and> valid (big mi2)
                                 then MergeIterator_swap mi2 else mi2)"
      from a have "advanced_to mi c1 mi'" by (simp add: mi'_def advanced_to_swap)
      moreover from d have "deref (heap mi') (second mi') = c1"
        by (auto simp: mi'_def MergeIterator_swap_def)
      moreover from st have "\<forall>n. iter_Next n ?c = Some (Inr c1) \<longrightarrow> fix_loop (Suc n) mi = Some (Inr mi')"
        by (simp add: mi'_def)
      ultimately show ?thesis using 0 by auto
    next
      case (Suc k')
      with pos have v: "iter_Valid c1 = Inr True" by simp
      from fix_loop_turn [OF t s nx v] obtain mi2 where
        a: "advanced_to mi c1 mi2" and d: "deref (heap mi2) (second mi2) = c1"
        and st: "\<forall>n. iter_Next n ?c = Some (Inr c1) \<longrightarrow> fix_loop (Suc n) mi = fix_loop n mi2"
        by auto
      then show ?thesis using Suc by auto
    qed
  qed
  with nt pos show "\<exists>c1. Next_times (Suc 0) ?c c1 \<and>
           (case k of 0 \<Rightarrow> iter_Valid c1 = Inr False
                    | Suc k' \<Rightarrow> iter_Valid c1 = Inr True \<and> advances k' c1) \<and>
           (second mi \<noteq> iter (small mi) \<and> second mi \<noteq> iter (big mi) \<and>
              (\<forall>n. iter_Next n ?c = Some (Inr c1) \<longrightarrow>
                 fix_loop (Suc n) mi = Some (Inl (Panic ''mi.second invalid''))) \<or>
            (\<exists>mi2. advanced_to mi c1 mi2 \<and> deref (heap mi2) (second mi2) = c1 \<and>
               (\<forall>n. iter_Next n ?c = Some (Inr c1) \<longrightarrow>
                  (case k of 0 \<Rightarrow> fix_loop (Suc n) mi = Some (Inr mi2)
                           | Suc k' \<Rightarrow> fix_loop (Suc n) mi = fix_loop n mi2))))"
    by blast
qed

section \<open>The theorems at the examples\<close>

theorem traversal_globally_sorted_witness:
  "source_sorted False example_A \<and> source_sorted False example_B \<and>
   source_sorted False example_C \<and> source_sorted False example_D \<and>
   traverse 10 (map Leaf [example_A, example_B, example_C, example_D]) False =
     Some (Inr [(Some 1, Some ''A''), (Some 2, Some ''A''), (Some 3, Some ''B''),
                (Some 4, Some ''A''), (Some 5, Some ''D'')]) \<and>
   sorted_wrt (key_le False)
     (map fst [(Some (1::nat), Some ''A''), (Some 2, Some ''A''), (Some 3, Some ''B''),
               (Some 4, Some ''A''), (Some 5, Some ''D'')]) \<and>
   (\<exists>N ys. \<forall>n\<ge>N. traverse n (map Leaf [example_A, example_B, example_C, example_D]) False =
                  Some (Inr ys)) \<and>
   source_sorted True example_rA \<and> source_sorted True example_rB \<and>
   traverse 10 (map Leaf [example_rA, example_rB]) True =
     Some (Inr [(Some 4, Some ''A''), (Some 3, Some ''B''), (Some 2, Some ''A''),
                (Some 1, Some ''A'')]) \<and>
   sorted_wrt (key_le True)
     (map fst [(Some (4::nat), Some ''A''), (Some 3, Some ''B''), (Some 2, Some ''A''),
               (Some 1, Some ''A'')])"
proof -
  have s: "\<forall>s\<in>set [example_A, example_B, example_C, example_D]. source_sorted False s"
    by (simp add: source_sorted_def example_A_def example_B_def example_C_def example_D_def
        before_def)
  have r: "traverse 10 (map Leaf [example_A, example_B, example_C, example_D]) False =
     Some (Inr [(Some 1, Some ''A''), (Some 2, Some ''A''), (Some 3, Some ''B''),
                (Some 4, Some ''A''), (Some 5, Some ''D'')])"
    by code_simp
  have s': "\<forall>s\<in>set [example_rA, example_rB]. source_sorted True s"
    by (simp add: source_sorted_def example_rA_def example_rB_def before_def)
  have r': "traverse 10 (map Leaf [example_rA, example_rB]) True =
     Some (Inr [(Some 4, Some ''A''), (Some 3, Some ''B''), (Some 2, Some ''A''),
                (Some 1, Some ''A'')])"
    by code_simp
  note f = traversal_globally_sorted [OF s]
  note g = traversal_globally_sorted [OF s']
  from f r have "sorted_wrt (key_le False)
     (map fst [(Some (1::nat), Some ''A''), (Some 2, Some ''A''), (Some 3, Some ''B''),
               (Some 4, Some ''A''), (Some 5, Some ''D'')])" by blast
  moreover from f have "\<exists>N ys. \<forall>n\<ge>N.
      traverse n (map Leaf [example_A, example_B, example_C, example_D]) False = Some (Inr ys)"
    by blast
  moreover from g r' have "sorted_wrt (key_le True)
     (map fst [(Some (4::nat), Some ''A''), (Some 3, Some ''B''), (Some 2, Some ''A''),
               (Some 1, Some ''A'')])" by blast
  ultimately show ?thesis using s s' r r' by simp
qed

theorem duplicates_resolved_by_input_order_witness:
  "source_strictly_sorted False example_A \<and> source_strictly_sorted False example_B \<and>
   source_strictly_sorted False example_C \<and> source_strictly_sorted False example_D \<and>
   (0::nat) < length [example_A, example_B, example_C, example_D] \<and>
   (2, ''A'') \<in> set (entries ([example_A, example_B, example_C, example_D] ! 0)) \<and>
   traverse 10 (map Leaf [example_A, example_B, example_C, example_D]) False =
     Some (Inr [(Some 1, Some ''A''), (Some 2, Some ''A''), (Some 3, Some ''B''),
                (Some 4, Some ''A''), (Some 5, Some ''D'')]) \<and>
   filter (\<lambda>e. fst e = Some 2)
     [(Some (1::nat), Some ''A''), (Some 2, Some ''A''), (Some 3, Some ''B''),
      (Some 4, Some ''A''), (Some 5, Some ''D'')] = [(Some 2, Some ''A'')] \<and>
   (\<exists>N ys. \<forall>n\<ge>N. traverse n (map Leaf [example_A, example_B, example_C, example_D]) False =
                  Some (Inr ys))"
proof -
  have s: "\<forall>s\<in>set [example_A, example_B, example_C, example_D]. source_strictly_sorted False s"
    by (simp add: source_strictly_sorted_def example_A_def example_B_def example_C_def
        example_D_def before_def)
  have l: "(0::nat) < length [example_A, example_B, example_C, example_D]" by simp
  have m: "(2, ''A'') \<in> set (entries ([example_A, example_B, example_C, example_D] ! 0))"
    by (simp add: example_A_def)
  have e: "\<forall>j<0::nat. (2::nat) \<notin> fst ` set (entries ([example_A, example_B, example_C, example_D] ! j))"
    by simp
  have r: "traverse 10 (map Leaf [example_A, example_B, example_C, example_D]) False =
     Some (Inr [(Some 1, Some ''A''), (Some 2, Some ''A''), (Some 3, Some ''B''),
                (Some 4, Some ''A''), (Some 5, Some ''D'')])"
    by code_simp
  note f = duplicates_resolved_by_input_order [OF s l m e]
  from f r have "filter (\<lambda>e. fst e = Some 2)
     [(Some (1::nat), Some ''A''), (Some 2, Some ''A''), (Some 3, Some ''B''),
      (Some 4, Some ''A''), (Some 5, Some ''D'')] = [(Some 2, Some ''A'')]" by blast
  moreover from f have "\<exists>N ys. \<forall>n\<ge>N.
      traverse n (map Leaf [example_A, example_B, example_C, example_D]) False = Some (Inr ys)"
    by blast
  ultimately show ?thesis using s l m r by simp
qed

theorem I1_after_every_operation_witness:
  "wf_iter (Merge example_tie) \<and>
   MergeIterator_Rewind 3 example_tie = Some (Inr example_rewound) \<and> I1 example_rewound \<and>
   (\<exists>N mi'. (\<forall>n\<ge>N. MergeIterator_Rewind n example_tie = Some (Inr mi')) \<and> I1 mi') \<and>
   (\<exists>N mi'. (\<forall>n\<ge>N. MergeIterator_Seek n 3 example_tie = Some (Inr mi')) \<and> I1 mi') \<and>
   wf_iter (Merge example_rewound) \<and> positioned (Merge example_rewound) \<and>
   valid (small example_rewound) \<and>
   (\<exists>N mi'. (\<forall>n\<ge>N. MergeIterator_Next n example_rewound = Some (Inr mi')) \<and> I1 mi')"
proof -
  have r: "MergeIterator_Rewind 3 example_tie = Some (Inr example_rewound)" by code_simp
  have w: "wf_iter (Merge example_tie)" by (simp add: example_tie_def)
  have w': "wf_iter (Merge example_rewound)" by (simp add: example_rewound_def)
  have p: "positioned (Merge example_rewound)"
    by (simp add: example_rewound_def example_A_def example_B_def coherent_def I1_strict_def)
  have v: "valid (small example_rewound)" by (simp add: example_rewound_def)
  from I1_after_every_operation [of 3 example_tie 3] r w
  have "I1 example_rewound"
    and "\<exists>N mi'. (\<forall>n\<ge>N. MergeIterator_Rewind n example_tie = Some (Inr mi')) \<and> I1 mi'"
    and "\<exists>N mi'. (\<forall>n\<ge>N. MergeIterator_Seek n 3 example_tie = Some (Inr mi')) \<and> I1 mi'"
    by blast+
  moreover from I1_after_every_operation [of 3 example_rewound 3] w' p v
  have "\<exists>N mi'. (\<forall>n\<ge>N. MergeIterator_Next n example_rewound = Some (Inr mi')) \<and> I1 mi'"
    by blast
  ultimately show ?thesis using r w w' p v by simp
qed

theorem second_mismatch_panics_witness:
  "second example_foreign \<noteq> iter (small example_foreign) \<and>
   second example_foreign \<noteq> iter (big example_foreign) \<and>
   valid (small example_foreign) \<and> valid (big example_foreign) \<and>
   CompareKeys (key (small example_foreign)) (key (big example_foreign)) = 0 \<and>
   refresh_second example_foreign = Inl (Panic ''mi.second invalid'') \<and>
   MergeIterator_fix (Suc 1) example_foreign = Some (Inl (Panic ''mi.second invalid'')) \<and>
   second example_tie = iter (big example_tie) \<and>
   (\<forall>msg. refresh_second example_tie \<noteq> Inl (Panic msg)) \<and>
   wf_iter (Merge example_tie) \<and> fix_ready example_tie \<and>
   (\<forall>m p. MergeIterator_fix m example_tie \<noteq> Some (Inl p))"
proof -
  have a: "second example_foreign \<noteq> iter (small example_foreign) \<and>
      second example_foreign \<noteq> iter (big example_foreign)"
    by (simp add: example_foreign_def)
  have b: "valid (small example_foreign) \<and> valid (big example_foreign) \<and>
      CompareKeys (key (small example_foreign)) (key (big example_foreign)) = 0"
    by (simp add: example_foreign_def)
  have n: "iter_Next 1 (deref (heap example_foreign) (second example_foreign)) =
      Some (Inr (Leaf (source_Next example_C)))"
    by (simp add: example_foreign_def deref_def)
  have c: "second example_tie = iter (big example_tie)" by (simp add: example_tie_def)
  have w: "wf_iter (Merge example_tie)" by (simp add: example_tie_def)
  have fr: "fix_ready example_tie"
    by (simp add: fix_ready_def example_tie_def example_A_def example_B_def coherent_def)
  from second_mismatch_panics [of example_foreign 1] a b
  have "refresh_second example_foreign = Inl (Panic ''mi.second invalid'')"
    and "MergeIterator_fix (Suc 1) example_foreign =
      bindR (iter_Next 1 (deref (heap example_foreign) (second example_foreign)))
        (\<lambda>obj'. Some (Inl (Panic ''mi.second invalid'')))"
    by blast+
  moreover from second_mismatch_panics [of example_tie 1] c fr
  have "\<forall>msg. refresh_second example_tie \<noteq> Inl (Panic msg)"
    and "\<forall>m p. MergeIterator_fix m example_tie \<noteq> Some (Inl p)" by blast+
  ultimately show ?thesis using a b c n w fr by (simp del: wf_iter.simps)
qed

theorem fix_returns_strict_order_witness:
  "\<exists>mi'. MergeIterator_fix 2 example_tie = Some (Inr mi') \<and> valid (small mi') \<and> valid (big mi') \<and>
     CompareKeys (key (small mi')) (key (big mi')) < 0 \<and> key (small mi') \<noteq> key (big mi')"
proof -
  define mi' where "mi' = MergeIterator \<lparr>valid = True, key = Some (2::nat), iter = 1\<rparr>
       \<lparr>valid = True, key = Some 3, iter = 2\<rparr>
       2 False [Leaf (example_A\<lparr>pos := 1\<rparr>), Leaf (example_B\<lparr>pos := 1\<rparr>)]"
  have r: "MergeIterator_fix 2 example_tie = Some (Inr mi')" unfolding mi'_def by code_simp
  have v: "valid (small mi')" "valid (big mi')" by (simp_all add: mi'_def)
  from fix_returns_strict_order [OF r v] r v show ?thesis by (auto simp: example_tie_def)
qed

theorem fix_terminates_witness:
  "advances (Suc 0) (deref (heap example_tie) (second example_tie)) \<and>
   valid (small example_tie) \<and>
   CompareKeys (key (small example_tie)) (key (big example_tie)) = 0 \<and>
   (\<exists>N r. (\<forall>n\<ge>N. MergeIterator_fix n example_tie = Some r) \<and>
        (case r of
           Inl p \<Rightarrow> p = Panic ''mi.second invalid'' \<and>
                    second example_tie \<noteq> iter (small example_tie) \<and>
                    second example_tie \<noteq> iter (big example_tie)
         | Inr mi' \<Rightarrow> \<exists>j c'. j \<le> Suc (Suc 0) \<and>
                        Next_times j (deref (heap example_tie) (second example_tie)) c' \<and>
                        advanced_to example_tie c' mi')) \<and>
   (\<exists>c1. Next_times (Suc 0) (deref (heap example_tie) (second example_tie)) c1 \<and>
      iter_Valid c1 = Inr True \<and> advances 0 c1 \<and>
      (\<exists>mi2. advanced_to example_tie c1 mi2 \<and> deref (heap mi2) (second mi2) = c1 \<and>
         fix_loop (Suc (Suc 0)) example_tie = fix_loop (Suc 0) mi2)) \<and>
   iter_Next (Suc 0) (deref (heap example_tie) (second example_tie)) =
     Some (Inr (Leaf (example_B\<lparr>pos := 1\<rparr>))) \<and>
   fix_loop (Suc (Suc 0)) example_tie =
     Some (Inr (MergeIterator \<lparr>valid = True, key = Some 2, iter = 1\<rparr>
                  \<lparr>valid = True, key = Some 3, iter = 2\<rparr> 2 False
                  [Leaf (example_A\<lparr>pos := 1\<rparr>), Leaf (example_B\<lparr>pos := 1\<rparr>)])) \<and>
   MergeIterator_fix 2 example_tie =
     Some (Inr (MergeIterator \<lparr>valid = True, key = Some 2, iter = 1\<rparr>
                  \<lparr>valid = True, key = Some 3, iter = 2\<rparr> 2 False
                  [Leaf (example_A\<lparr>pos := 1\<rparr>), Leaf (example_B\<lparr>pos := 1\<rparr>)]))"
proof -
  have "advances (length (remaining (Leaf example_B)) - 1) (Leaf example_B)"
    by (rule positioned_advances) (simp_all add: example_B_def)
  then have e: "advances (Suc 0) (deref (heap example_tie) (second example_tie))"
    by (simp add: example_tie_def example_B_def)
  have t: "valid (small example_tie) \<and>
      CompareKeys (key (small example_tie)) (key (big example_tie)) = 0"
    by (simp add: example_tie_def)
  have s: "second example_tie = iter (big example_tie)" by (simp add: example_tie_def)
  have nx: "iter_Next (Suc 0) (deref (heap example_tie) (second example_tie)) =
      Some (Inr (Leaf (example_B\<lparr>pos := 1\<rparr>)))"
    by (simp add: example_tie_def source_Next_def example_B_def)
  have l: "fix_loop (Suc (Suc 0)) example_tie =
     Some (Inr (MergeIterator \<lparr>valid = True, key = Some 2, iter = 1\<rparr>
                  \<lparr>valid = True, key = Some 3, iter = 2\<rparr> 2 False
                  [Leaf (example_A\<lparr>pos := 1\<rparr>), Leaf (example_B\<lparr>pos := 1\<rparr>)]))"
    by code_simp
  have r: "MergeIterator_fix 2 example_tie =
     Some (Inr (MergeIterator \<lparr>valid = True, key = Some 2, iter = 1\<rparr>
                  \<lparr>valid = True, key = Some 3, iter = 2\<rparr> 2 False
                  [Leaf (example_A\<lparr>pos := 1\<rparr>), Leaf (example_B\<lparr>pos := 1\<rparr>)]))"
    by code_simp
  note th = fix_terminates [OF e]
  from th [THEN conjunct2, rule_format, OF t] obtain c1 where
    nt: "Next_times (Suc 0) (deref (heap example_tie) (second example_tie)) c1"
    and v: "iter_Valid c1 = Inr True" and a: "advances 0 c1"
    and st: "\<exists>mi2. advanced_to example_tie c1 mi2 \<and> deref (heap mi2) (second mi2) = c1 \<and>
               (\<forall>n. iter_Next n (deref (heap example_tie) (second example_tie)) = Some (Inr c1) \<longrightarrow>
                  fix_loop (Suc n) example_tie = fix_loop n mi2)"
    using s by auto
  from nt obtain m where "iter_Next m (deref (heap example_tie) (second example_tie)) = Some (Inr c1)"
    by (auto elim: Next_times.cases)
  with nx have "c1 = Leaf (example_B\<lparr>pos := 1\<rparr>)"
    by (auto dest: iter_Next_determined)
  with st nx obtain mi2 where "advanced_to example_tie c1 mi2" "deref (heap mi2) (second mi2) = c1"
    "fix_loop (Suc (Suc 0)) example_tie = fix_loop (Suc 0) mi2" by auto
  with nt v a have "\<exists>c1. Next_times (Suc 0) (deref (heap example_tie) (second example_tie)) c1 \<and>
      iter_Valid c1 = Inr True \<and> advances 0 c1 \<and>
      (\<exists>mi2. advanced_to example_tie c1 mi2 \<and> deref (heap mi2) (second mi2) = c1 \<and>
         fix_loop (Suc (Suc 0)) example_tie = fix_loop (Suc 0) mi2)" by blast
  with th [THEN conjunct1] e t nx l r show ?thesis by blast
qed

theorem Close_closes_both_children_witness:
  "iter_Close 0 (deref (heap (MergeIterator_swap example_tie)) (iter (small (MergeIterator_swap example_tie)))) =
     Some (Inr (Some ''B: close failed'', Leaf (example_B\<lparr>closes := 1\<rparr>))) \<and>
   iter_Close 0 (deref (store (heap (MergeIterator_swap example_tie))
                     (iter (small (MergeIterator_swap example_tie))) (Leaf (example_B\<lparr>closes := 1\<rparr>)))
                  (iter (big (MergeIterator_swap example_tie)))) =
     Some (Inr (None, Leaf (example_A\<lparr>pos := 1, closes := 1\<rparr>))) \<and>
   (\<exists>err. MergeIterator_Close (Suc 0) (MergeIterator_swap example_tie) =
           Some (Inr (err, set_heap [Leaf (example_A\<lparr>pos := 1, closes := 1\<rparr>),
                                     Leaf (example_B\<lparr>closes := 1\<rparr>)]
                             (MergeIterator_swap example_tie))) \<and>
          err \<noteq> None)"
proof -
  have h1: "iter_Close 0 (deref (heap (MergeIterator_swap example_tie))
                (iter (small (MergeIterator_swap example_tie)))) =
     Some (Inr (Some ''B: close failed'', Leaf (example_B\<lparr>closes := 1\<rparr>)))"
    by (simp add: example_tie_def example_B_def source_Close_def returnR_def)
  have h2: "iter_Close 0 (deref (store (heap (MergeIterator_swap example_tie))
                     (iter (small (MergeIterator_swap example_tie))) (Leaf (example_B\<lparr>closes := 1\<rparr>)))
                  (iter (big (MergeIterator_swap example_tie)))) =
     Some (Inr (None, Leaf (example_A\<lparr>pos := 1, closes := 1\<rparr>)))"
    by (simp add: example_tie_def example_A_def source_Close_def returnR_def)
  from Close_closes_both_children [OF h1 h2] h1 h2 show ?thesis
    by (simp add: example_tie_def)
qed

theorem NewMergeIterator_shape_witness:
  "length (map Leaf [example_A, example_B]) = 2 \<and>
   (\<exists>mi. NewMergeIterator (map Leaf [example_A, example_B]) False = Merge mi \<and>
         small mi = \<lparr>valid = False, key = None, iter = 1\<rparr> \<and>
         big mi = \<lparr>valid = False, key = None, iter = 2\<rparr> \<and>
         second mi = 2 \<and> reverse mi = False \<and> heap mi = [Leaf example_A, Leaf example_B]) \<and>
   2 < length (map Leaf [example_A, example_B, example_C]) \<and>
   (\<exists>mi. NewMergeIterator (map Leaf [example_A, example_B, example_C]) False = Merge mi \<and>
         deref (heap mi) (iter (small mi)) = Leaf example_A \<and>
         deref (heap mi) (iter (big mi)) = NewMergeIterator [Leaf example_B, Leaf example_C] False \<and>
         deref (heap mi) (second mi) = NewMergeIterator [Leaf example_B, Leaf example_C] False \<and>
         second mi = iter (big mi) \<and> reverse mi = False)"
proof -
  have l2: "length (map Leaf [example_A, example_B]) = 2" by simp
  have l3: "2 < length (map Leaf [example_A, example_B, example_C])" by simp
  from NewMergeIterator_shape [of "map Leaf [example_A, example_B]" False] l2
  obtain mi where "NewMergeIterator (map Leaf [example_A, example_B]) False = Merge mi"
    "small mi = \<lparr>valid = False, key = None, iter = addr_of 1 (map Leaf [example_A, example_B] ! 0)\<rparr>"
    "big mi = \<lparr>valid = False, key = None, iter = addr_of 2 (map Leaf [example_A, example_B] ! 1)\<rparr>"
    "second mi = iter (big mi)" "reverse mi = False"
    "heap mi = [map Leaf [example_A, example_B] ! 0, map Leaf [example_A, example_B] ! 1]"
    by blast
  then have A: "\<exists>mi. NewMergeIterator (map Leaf [example_A, example_B]) False = Merge mi \<and>
         small mi = \<lparr>valid = False, key = None, iter = 1\<rparr> \<and>
         big mi = \<lparr>valid = False, key = None, iter = 2\<rparr> \<and>
         second mi = 2 \<and> reverse mi = False \<and> heap mi = [Leaf example_A, Leaf example_B]"
    by (simp add: addr_of_def)
  from NewMergeIterator_shape [of "map Leaf [example_A, example_B, example_C]" False] l3
  obtain mi where "NewMergeIterator (map Leaf [example_A, example_B, example_C]) False = Merge mi"
    "deref (heap mi) (iter (small mi)) =
       NewMergeIterator (take (length (map Leaf [example_A, example_B, example_C]) div 2)
         (map Leaf [example_A, example_B, example_C])) False"
    "deref (heap mi) (iter (big mi)) =
       NewMergeIterator (drop (length (map Leaf [example_A, example_B, example_C]) div 2)
         (map Leaf [example_A, example_B, example_C])) False"
    "deref (heap mi) (second mi) =
       NewMergeIterator (drop (length (map Leaf [example_A, example_B, example_C]) div 2)
         (map Leaf [example_A, example_B, example_C])) False"
    "second mi = iter (big mi)" "reverse mi = False"
    by blast
  then have B: "\<exists>mi. NewMergeIterator (map Leaf [example_A, example_B, example_C]) False = Merge mi \<and>
         deref (heap mi) (iter (small mi)) = Leaf example_A \<and>
         deref (heap mi) (iter (big mi)) = NewMergeIterator [Leaf example_B, Leaf example_C] False \<and>
         deref (heap mi) (second mi) = NewMergeIterator [Leaf example_B, Leaf example_C] False \<and>
         second mi = iter (big mi) \<and> reverse mi = False"
    by (simp add: NewMergeIterator_1)
  from l2 l3 A B show ?thesis by blast
qed

end
